theory Spec2Isabelle
  imports Main "HOL-Library.Extended_Nat" "HOL-Library.Multiset" "HOL-Library.Log_Nat"
begin

section \<open>The shortest-path engine of \<^verbatim>\<open>src/lib/dijkstra.ts\<close>\<close>

text \<open>
  The engine is the function \<^verbatim>\<open>dijkstra\<close> together with the class
  \<^verbatim>\<open>PriorityQueue\<close> it drives. The embedding follows the source line by line.

  \<^item> A JavaScript object is modelled by the association list of its own properties in the
    order in which \<^verbatim>\<open>for (k in obj)\<close> enumerates them, so a \<^verbatim>\<open>Graph\<close> is a list of
    (node, neighbour list) pairs and \<^verbatim>\<open>graph[u]\<close> is \<open>map_of g u\<close>. An object has each
    key once; that is the predicate \<open>wf_graph\<close>.
  \<^item> A weight is a non-negative integer, as the graph builders of the repository produce
    them (\<^verbatim>\<open>parseInt\<close> followed by a check \<^verbatim>\<open>weight >= 0\<close>). The numbers the engine
    forms from them are 0, \<^verbatim>\<open>Infinity\<close> and sums; they are values of the type
    \<^verbatim>\<open>number\<close>, that is IEEE 754 doubles. A distance is modelled by an \<^typ>\<open>enat\<close>, and
    the addition of line 100 by \<open>js_add\<close>, which rounds the exact sum to the nearest double
    (a tie goes to the even significand) and gives \<^verbatim>\<open>Infinity\<close> from \<open>2 ^ 1024\<close> on.
    Comparison of doubles is exact. (A weight above \<open>2 ^ 53\<close> that is not itself a double
    cannot occur in a JavaScript graph; the definitions give it a meaning all the same,
    and no theorem depends on it.)
  \<^item> The tables \<^verbatim>\<open>distances\<close> and \<^verbatim>\<open>previousNodes\<close> are plain objects made by
    \<^verbatim>\<open>{}\<close>. Each is modelled by the map of its own properties. Reading a missing key
    gives \<^verbatim>\<open>undefined\<close>, modelled by \<open>None\<close>; \<^verbatim>\<open>null\<close> in \<^verbatim>\<open>previousNodes\<close> is
    \<open>Some None\<close>.
  \<^item> The one name for which a plain object is not a map is \<^verbatim>\<open>__proto__\<close>, the accessor
    inherited from \<^verbatim>\<open>Object.prototype\<close>. The assignment
    \<^verbatim>\<open>distances["__proto__"] = 0\<close> runs the inherited setter, which ignores a number,
    and \<^verbatim>\<open>previousNodes["__proto__"] = null\<close> sets the prototype of the table to
    \<^verbatim>\<open>null\<close>: neither makes a property. Afterwards \<^verbatim>\<open>distances["__proto__"]\<close> reads
    the object \<^verbatim>\<open>Object.prototype\<close>, which is not a number, is not \<^verbatim>\<open>Infinity\<close> and makes
    every comparison with a number false, and \<^verbatim>\<open>previousNodes["__proto__"]\<close> reads
    \<^verbatim>\<open>undefined\<close>. So the model makes no entry for that name, and \<open>None\<close> for a distance
    means that the value is not a number. (The engine reads \<^verbatim>\<open>previousNodes\<close> only at the
    end node once it has been extracted and at recorded predecessors; these are keys of the
    graph, for which line 26 has run.)
  \<^item> The walk along \<^verbatim>\<open>previousNodes\<close> is a \<^verbatim>\<open>while\<close> loop with no bound in the
    source. It is a partial function in the option monad: \<open>None\<close> means that the loop
    does not end. Accordingly \<open>dijkstra g s e = Some r\<close> says that the call returns
    \<open>r\<close>, where \<open>r = None\<close> is \<^verbatim>\<open>null\<close>.
  \<^item> The other properties inherited from \<^verbatim>\<open>Object.prototype\<close> are functions
    (\<^verbatim>\<open>constructor\<close>, \<^verbatim>\<open>toString\<close> and the like). An assignment to such a name makes an
    own property, so a key of the graph with such a name is a key like any other. The
    engine reads a name that is not a key of the graph only as \<^verbatim>\<open>distances[neighbor]\<close> in
    the comparison of line 102, where a function makes the comparison false as
    \<^verbatim>\<open>undefined\<close> does.
\<close>

subsection \<open>Data\<close>

type_synonym graph = "(string \<times> (string \<times> nat) list) list"

text \<open>
  The field \<^verbatim>\<open>distance\<close> of a result is \<^verbatim>\<open>distances[endNode]\<close> as it is read at the
  return; \<open>None\<close> says that this value is not a number.
\<close>

record dijkstra_result =
  path :: "string list"
  distance :: "enat option"

record 'a entry =
  element :: 'a
  priority :: enat

type_synonym 'a priority_queue = "'a entry list"

record state =
  distances :: "string \<rightharpoonup> enat"
  previousNodes :: "string \<rightharpoonup> string option"
  pq :: "string priority_queue"

definition wf_graph :: "graph \<Rightarrow> bool" where
  "wf_graph g \<longleftrightarrow>
     distinct (map fst g) \<and> list_all (\<lambda>(u, nbrs). distinct (map fst nbrs)) g"

definition proto :: string where
  "proto = ''__proto__''"

subsection \<open>Numbers\<close>

text \<open>
  The doubles among the natural numbers are those below \<open>2 ^ 53\<close> and, above, the
  multiples of a power of two with a quotient below \<open>2 ^ 53\<close>. \<open>ulp n\<close> is the distance
  between neighbouring doubles at \<open>n\<close>; \<open>floorlog 2 n\<close> is the number of binary digits of
  \<open>n\<close>. \<open>nearest n\<close> is the double nearest to \<open>n\<close>, the one with the even significand if
  two are equally near, and \<open>js_round\<close> turns a result of \<open>2 ^ 1024\<close> or more into
  \<^verbatim>\<open>Infinity\<close>. \<open>js_add\<close> is the operator \<^verbatim>\<open>+\<close> on two numbers.
\<close>

definition ulp :: "nat \<Rightarrow> nat" where
  "ulp n = 2 ^ (floorlog 2 n - 53)"

definition nearest :: "nat \<Rightarrow> nat" where
  "nearest n =
     (let u = ulp n; q = n div u; r = n mod u
      in (if 2 * r < u \<or> (2 * r = u \<and> even q) then q else q + 1) * u)"

definition js_round :: "nat \<Rightarrow> enat" where
  "js_round n = (let m = nearest n in if floorlog 2 m \<le> 1024 then enat m else \<infinity>)"

definition js_add :: "enat \<Rightarrow> enat \<Rightarrow> enat" where
  "js_add a b =
     (case a of
        \<infinity> \<Rightarrow> \<infinity>
      | enat x \<Rightarrow> (case b of \<infinity> \<Rightarrow> \<infinity> | enat y \<Rightarrow> js_round (x + y)))"

text \<open>\<open>is_double a\<close>: the value \<open>a\<close> is \<^verbatim>\<open>Infinity\<close> or a natural number that is a double.\<close>

definition is_double :: "enat \<Rightarrow> bool" where
  "is_double a =
     (case a of \<infinity> \<Rightarrow> True | enat x \<Rightarrow> ulp x dvd x \<and> floorlog 2 x \<le> 1024)"

subsection \<open>The class \<^verbatim>\<open>PriorityQueue\<close>\<close>

text \<open>
  \<^verbatim>\<open>Array.prototype.sort\<close> is stable, and the comparator
  \<^verbatim>\<open>(a, b) => a.priority - b.priority\<close> orders by priority (\<^verbatim>\<open>Infinity - Infinity\<close>
  is \<^verbatim>\<open>NaN\<close>, which \<^verbatim>\<open>sort\<close> reads as equal). \<^const>\<open>sort_key\<close> is the stable
  insertion sort of the library.
\<close>

definition enqueue :: "'a priority_queue \<Rightarrow> 'a \<Rightarrow> enat \<Rightarrow> 'a priority_queue" where
  "enqueue elements e p = sort_key priority (elements @ [\<lparr>element = e, priority = p\<rparr>])"

definition dequeue :: "'a priority_queue \<Rightarrow> ('a entry \<times> 'a priority_queue) option" where
  "dequeue elements = (case elements of [] \<Rightarrow> None | e # rest \<Rightarrow> Some (e, rest))"

definition isEmpty :: "'a priority_queue \<Rightarrow> bool" where
  "isEmpty elements \<longleftrightarrow> length elements = 0"

fun findIndex :: "('a \<Rightarrow> bool) \<Rightarrow> 'a list \<Rightarrow> nat option" where
  "findIndex P [] = None"
| "findIndex P (x # xs) =
     (if P x then Some 0 else map_option Suc (findIndex P xs))"

definition updatePriority :: "'a priority_queue \<Rightarrow> 'a \<Rightarrow> enat \<Rightarrow> 'a priority_queue" where
  "updatePriority elements e newPriority =
     (case findIndex (\<lambda>item. element item = e) elements of
        None \<Rightarrow> elements
      | Some index \<Rightarrow>
          sort_key priority
            (elements[index := (elements ! index)\<lparr>priority := newPriority\<rparr>]))"

subsection \<open>The function \<^verbatim>\<open>dijkstra\<close>\<close>

text \<open>
  Lines 18 to 27: one pass over the keys of the graph. For the key \<^verbatim>\<open>__proto__\<close> the
  assignments of lines 20, 23 and 26 make no property; the entry of line 21 or 24 is
  queued all the same.
\<close>

definition init_node :: "string \<Rightarrow> state \<Rightarrow> string \<Rightarrow> state" where
  "init_node startNode st node =
     (let d = (if node = startNode then 0 else \<infinity>) in
      if node = proto then st\<lparr>pq := enqueue (pq st) node d\<rparr>
      else st\<lparr>distances := (distances st)(node \<mapsto> d),
              previousNodes := (previousNodes st)(node \<mapsto> None),
              pq := enqueue (pq st) node d\<rparr>)"

definition init :: "graph \<Rightarrow> string \<Rightarrow> state" where
  "init g startNode =
     foldl (init_node startNode)
       \<lparr>distances = Map.empty, previousNodes = Map.empty, pq = []\<rparr> (map fst g)"

text \<open>
  Lines 99 to 106, for one neighbour. \<^verbatim>\<open>distances[currentNode]\<close> is read again for
  every neighbour. A comparison in which one side is not a number is false: a neighbour
  that is not a key of the graph is left alone, and so is every neighbour when
  \<^verbatim>\<open>distances[currentNode]\<close> is not a number (then \<^verbatim>\<open>newDistance\<close> is \<^verbatim>\<open>NaN\<close> or a
  string that does not read as a number).
\<close>

definition relax :: "string \<Rightarrow> state \<Rightarrow> string \<times> nat \<Rightarrow> state" where
  "relax currentNode st nb =
     (case nb of (neighbor, distanceToNeighbor) \<Rightarrow>
        (case distances st currentNode of
           None \<Rightarrow> st
         | Some dc \<Rightarrow>
             (let newDistance = js_add dc (enat distanceToNeighbor) in
              (case distances st neighbor of
                 None \<Rightarrow> st
               | Some dn \<Rightarrow>
                   if newDistance < dn
                   then st\<lparr>distances := (distances st)(neighbor \<mapsto> newDistance),
                           previousNodes := (previousNodes st)(neighbor \<mapsto> Some currentNode),
                           pq := updatePriority (pq st) neighbor newDistance\<rparr>
                   else st))))"

text \<open>
  The body of the main loop after \<^verbatim>\<open>dequeue\<close>, up to the point where it either goes
  round again or enters the branch \<^verbatim>\<open>currentNode === endNode\<close>. Only the
  \<^verbatim>\<open>element\<close> of the extracted entry is read (line 30). \<^verbatim>\<open>!currentNode\<close> holds of
  the empty string. A value of \<^verbatim>\<open>distances[currentNode]\<close> that is not a number is not
  \<^verbatim>\<open>Infinity\<close>.
\<close>

datatype flow = Continue state | Found state

definition loop_body :: "graph \<Rightarrow> string \<Rightarrow> string entry \<Rightarrow> state \<Rightarrow> flow" where
  "loop_body g endNode e st =
     (let currentNode = element e in
      if currentNode = [] \<or> distances st currentNode = Some \<infinity> then Continue st
      else if currentNode = endNode then Found st
      else (case map_of g currentNode of
              None \<Rightarrow> Continue st
            | Some nbrs \<Rightarrow> Continue (foldl (relax currentNode) st nbrs)))"

text \<open>
  Lines 40 to 47, with \<open>pth\<close> for the array \<^verbatim>\<open>path\<close> (the name is taken by the
  field of the result). \<open>Broken\<close> is the \<^verbatim>\<open>return null\<close> of line 45; \<^verbatim>\<open>!tempNode\<close>
  holds of \<^verbatim>\<open>null\<close> and of the empty string.
\<close>

datatype walk = Broken | Walked "string list"

partial_function (option) walk_back ::
  "(string \<rightharpoonup> string option) \<Rightarrow> string \<Rightarrow> string \<Rightarrow> string option \<Rightarrow> string list
     \<Rightarrow> walk option"
where
  "walk_back prev startNode endNode tempNode pth =
     (case tempNode of
        None \<Rightarrow> Some (Walked pth)
      | Some t \<Rightarrow>
          (case prev t of
             None \<Rightarrow> Some (Walked pth)
           | Some p \<Rightarrow>
               if t = startNode then Some (Walked (t # pth))
               else if (p = None \<or> p = Some []) \<and> startNode \<noteq> endNode then Some Broken
               else walk_back prev startNode endNode p (t # pth)))"

declare walk_back.simps [code]

text \<open>Lines 76 to 82; \<open>current\<close> may be \<^verbatim>\<open>undefined\<close> or \<^verbatim>\<open>null\<close>.\<close>

partial_function (option) walk_again ::
  "(string \<rightharpoonup> string option) \<Rightarrow> string \<Rightarrow> string option option \<Rightarrow> string list
     \<Rightarrow> string list option"
where
  "walk_again prev startNode current reconstructedPath =
     (case current of
        None \<Rightarrow> Some reconstructedPath
      | Some None \<Rightarrow> Some reconstructedPath
      | Some (Some c) \<Rightarrow>
          if c = startNode then Some (c # reconstructedPath)
          else walk_again prev startNode (prev c) (c # reconstructedPath))"

declare walk_again.simps [code]

definition first :: "'a list \<Rightarrow> 'a option" where
  "first xs = (case xs of [] \<Rightarrow> None | x # _ \<Rightarrow> Some x)"

text \<open>
  Lines 38 to 93. The \<^verbatim>\<open>else if\<close> of lines 50 to 55 has an empty body and conditions
  without effect, so it does not appear.
\<close>

definition reconstruct :: "string \<Rightarrow> string \<Rightarrow> state \<Rightarrow> dijkstra_result option option" where
  "reconstruct startNode endNode st =
     (case walk_back (previousNodes st) startNode endNode (Some endNode) [] of
        None \<Rightarrow> None
      | Some Broken \<Rightarrow> Some None
      | Some (Walked path0) \<Rightarrow>
          (let path1 = (if first path0 \<noteq> Some startNode \<and> startNode = endNode
                        then startNode # path0 else path0) in
           if first path1 \<noteq> Some startNode then
             (if distances st endNode \<noteq> Some \<infinity> then
                (if length path1 = 0 \<and> startNode = endNode
                 then Some (Some \<lparr>path = path1 @ [startNode], distance = distances st endNode\<rparr>)
                 else
                   (case walk_again (previousNodes st) startNode (Some (Some endNode)) [] of
                      None \<Rightarrow> None
                    | Some reconstructedPath \<Rightarrow>
                        if first reconstructedPath = Some startNode
                           \<and> distances st endNode \<noteq> Some \<infinity>
                        then Some (Some \<lparr>path = reconstructedPath,
                                         distance = distances st endNode\<rparr>)
                        else Some None))
              else Some None)
           else Some (Some \<lparr>path = path1, distance = distances st endNode\<rparr>)))"

text \<open>
  Lines 29 to 110: the main loop. \<^verbatim>\<open>dequeue\<close> gives nothing exactly when the queue is
  empty, so the test \<^verbatim>\<open>!pq.isEmpty()\<close> is the case \<open>None\<close> below, and the
  \<^verbatim>\<open>undefined\<close> that \<^verbatim>\<open>?.element\<close> allows for is never seen inside the loop. The
  inner \<open>None\<close> of the result is the \<^verbatim>\<open>return null\<close> of line 110.
\<close>

function dijkstra_loop ::
  "graph \<Rightarrow> string \<Rightarrow> string \<Rightarrow> state \<Rightarrow> dijkstra_result option option"
where
  "dijkstra_loop g startNode endNode st =
     (case dequeue (pq st) of
        None \<Rightarrow> Some None
      | Some (e, rest) \<Rightarrow>
          (case loop_body g endNode e (st\<lparr>pq := rest\<rparr>) of
             Continue st' \<Rightarrow> dijkstra_loop g startNode endNode st'
           | Found st' \<Rightarrow> reconstruct startNode endNode st'))"
  by pat_completeness auto
termination
proof (relation "measure (\<lambda>(g, startNode, endNode, st). length (pq st))")
  show "wf (measure (\<lambda>(g, startNode, endNode, st). length (pq st)))"
    by simp
next
  fix g :: graph and startNode endNode :: string and st st' :: state
    and x :: "string entry \<times> string priority_queue"
    and e :: "string entry" and rest :: "string priority_queue"
  assume deq: "dequeue (pq st) = Some x" "(e, rest) = x"
    and body: "loop_body g endNode e (st\<lparr>pq := rest\<rparr>) = Continue st'"
  have upd: "length (updatePriority q n p) = length q"
    for q :: "string priority_queue" and n p
    by (simp add: updatePriority_def split: option.splits)
  have rel: "length (pq (relax c s nb)) = length (pq s)" for c s nb
    by (simp add: relax_def Let_def upd split: prod.splits option.splits)
  have fold: "length (pq (foldl (relax c) s nbrs)) = length (pq s)" for c s nbrs
    by (induction nbrs arbitrary: s) (simp_all add: rel)
  from body have "length (pq st') = length rest"
    by (auto simp: loop_body_def Let_def fold split: if_splits option.splits)
  moreover from deq have "pq st = e # rest"
    by (auto simp: dequeue_def split: list.splits)
  ultimately show "((g, startNode, endNode, st'), (g, startNode, endNode, st))
      \<in> measure (\<lambda>(g, startNode, endNode, st). length (pq st))"
    by simp
qed

definition dijkstra :: "graph \<Rightarrow> string \<Rightarrow> string \<Rightarrow> dijkstra_result option option" where
  "dijkstra g startNode endNode = dijkstra_loop g startNode endNode (init g startNode)"

subsection \<open>Paths, for the statements\<close>

text \<open>
  \<open>keys g\<close> is \<^verbatim>\<open>Object.keys(graph)\<close>, \<open>edge_weight g u v\<close> is
  \<^verbatim>\<open>graph[u][v]\<close>. A path is a non-empty list of keys of the graph in which each node
  is a neighbour of the one before; its weight is the sum over consecutive pairs.
\<close>

definition keys :: "graph \<Rightarrow> string list" where
  "keys g = map fst g"

definition edge_weight :: "graph \<Rightarrow> string \<Rightarrow> string \<Rightarrow> nat option" where
  "edge_weight g u v = (case map_of g u of None \<Rightarrow> None | Some nbrs \<Rightarrow> map_of nbrs v)"

fun path_weight :: "graph \<Rightarrow> string list \<Rightarrow> nat option" where
  "path_weight g [] = None"
| "path_weight g [v] = (if v \<in> set (keys g) then Some 0 else None)"
| "path_weight g (u # v # rest) =
     (case edge_weight g u v of
        None \<Rightarrow> None
      | Some w \<Rightarrow> map_option ((+) w) (path_weight g (v # rest)))"

definition is_path :: "graph \<Rightarrow> string \<Rightarrow> string \<Rightarrow> string list \<Rightarrow> bool" where
  "is_path g s t p \<longleftrightarrow> first p = Some s \<and> last p = t \<and> path_weight g p \<noteq> None"

definition symmetric :: "graph \<Rightarrow> bool" where
  "symmetric g \<longleftrightarrow>
     list_all (\<lambda>(u, nbrs). list_all (\<lambda>(v, w). edge_weight g v u = Some w) nbrs) g"

text \<open>
  \<open>max_weight g\<close> is the largest weight of an edge of the graph, 0 if it has no edge.
\<close>

definition weights :: "graph \<Rightarrow> nat list" where
  "weights g = concat (map (\<lambda>(u, nbrs). map snd nbrs) g)"

definition max_weight :: "graph \<Rightarrow> nat" where
  "max_weight g = fold max (weights g) 0"

subsection \<open>Runs, for the statements\<close>

text \<open>
  \<open>loop_state g startNode endNode n st\<close>: in the run of
  \<^verbatim>\<open>dijkstra(g, startNode, endNode)\<close> the main loop completes \<open>n\<close> iterations and is then
  at its head in state \<open>st\<close>. \<open>pq_reachable\<close> are the queues that the operations of
  \<^verbatim>\<open>PriorityQueue\<close> can build.
\<close>

inductive loop_state :: "graph \<Rightarrow> string \<Rightarrow> string \<Rightarrow> nat \<Rightarrow> state \<Rightarrow> bool"
  for g :: graph and startNode endNode :: string
where
  loop_state_init: "loop_state g startNode endNode 0 (init g startNode)"
| loop_state_step:
    "loop_state g startNode endNode n st \<Longrightarrow> dequeue (pq st) = Some (e, rest) \<Longrightarrow>
     loop_body g endNode e (st\<lparr>pq := rest\<rparr>) = Continue st' \<Longrightarrow>
     loop_state g startNode endNode (Suc n) st'"

inductive pq_reachable :: "'a priority_queue \<Rightarrow> bool" where
  pq_new: "pq_reachable []"
| pq_enqueue: "pq_reachable q \<Longrightarrow> pq_reachable (enqueue q e p)"
| pq_updatePriority: "pq_reachable q \<Longrightarrow> pq_reachable (updatePriority q e p)"
| pq_dequeue: "pq_reachable q \<Longrightarrow> dequeue q = Some (x, rest) \<Longrightarrow> pq_reachable rest"

definition enqueue_all :: "('a \<times> enat) list \<Rightarrow> 'a priority_queue" where
  "enqueue_all xs = foldl (\<lambda>q (e, p). enqueue q e p) [] xs"

subsection \<open>The scenarios of the specification\<close>

text \<open>
  The graph that \<^verbatim>\<open>parseAdjacencyList\<close> builds from the edge list
  A-B(1), A-C(4), B-C(2), B-D(7), C-D(1), C-E(5), D-E(2), D-F(3), E-F(6).
\<close>

definition scenario1 :: graph where
  "scenario1 =
    [(''A'', [(''B'', 1), (''C'', 4)]),
     (''B'', [(''A'', 1), (''C'', 2), (''D'', 7)]),
     (''C'', [(''A'', 4), (''B'', 2), (''D'', 1), (''E'', 5)]),
     (''D'', [(''B'', 7), (''C'', 1), (''E'', 2), (''F'', 3)]),
     (''E'', [(''C'', 5), (''D'', 2), (''F'', 6)]),
     (''F'', [(''D'', 3), (''E'', 6)])]"

definition scenario2 :: graph where
  "scenario2 = [(''X'', [])]"

definition scenario3 :: graph where
  "scenario3 = [(''A'', [(''B'', 1)]), (''B'', [(''A'', 1)]), (''C'', [])]"

definition scenario4 :: graph where
  "scenario4 = [(''A'', [(''B'', 0)]), (''B'', [(''A'', 0)])]"

subsection \<open>Other inputs\<close>

text \<open>The graph \<^verbatim>\<open>{"": {}}\<close>, whose only node has the empty string as its name.\<close>

definition empty_name_graph :: graph where
  "empty_name_graph = [([], [])]"

text \<open>
  The graph \<^verbatim>\<open>{A: {"": 1}, "": {A: 1, B: 1}, B: {"": 1}}\<close>: the only way from A to B
  leads through the node with the empty name.
\<close>

definition empty_name_between :: graph where
  "empty_name_between =
     [(''A'', [([], 1)]), ([], [(''A'', 1), (''B'', 1)]), (''B'', [([], 1)])]"

text \<open>
  A triangle in which the way from A to C over B weighs \<open>2 ^ 53 + 3\<close>, which is not a
  double, and the edge from A to C weighs \<open>2 ^ 53 + 4\<close>.
\<close>

definition rounding_graph :: graph where
  "rounding_graph =
     [(''A'', [(''B'', 9007199254740994), (''C'', 9007199254740996)]),
      (''B'', [(''A'', 9007199254740994), (''C'', 1)]),
      (''C'', [(''A'', 9007199254740996), (''B'', 1)])]"

text \<open>
  The graph that \<^verbatim>\<open>JSON.parse('{"__proto__": {}}')\<close> builds, whose only node is named
  \<^verbatim>\<open>__proto__\<close>.
\<close>

definition proto_graph :: graph where
  "proto_graph = [(''__proto__'', [])]"

text \<open>
  The graph \<^verbatim>\<open>{A: {"__proto__": 1}, "__proto__": {A: 1, B: 1}, B: {"__proto__": 1}}\<close>, again
  as \<^verbatim>\<open>JSON.parse\<close> builds it: the only way from A to B leads through the node named
  \<^verbatim>\<open>__proto__\<close>.
\<close>

definition proto_between :: graph where
  "proto_between =
     [(''A'', [(''__proto__'', 1)]), (''__proto__'', [(''A'', 1), (''B'', 1)]),
      (''B'', [(''__proto__'', 1)])]"

subsection \<open>Changes of the tables\<close>

text \<open>
  \<open>improves st st'\<close>: from \<open>st\<close> to \<open>st'\<close> every node either keeps its entries in both
  tables, or its distance has become strictly smaller and its predecessor has been set.
\<close>

definition improves :: "state \<Rightarrow> state \<Rightarrow> bool" where
  "improves st st' \<longleftrightarrow>
     (\<forall>v. (distances st' v = distances st v \<and> previousNodes st' v = previousNodes st v) \<or>
          (\<exists>d d' u. distances st v = Some d \<and> distances st' v = Some d' \<and> d' < d \<and>
             previousNodes st' v = Some (Some u)))"

subsection \<open>Invariants of the main loop\<close>

text \<open>
  \<open>queued st\<close> are the nodes still in the frontier. At the head of the loop the frontier
  holds each node at most once, sorted, with the node's current distance as priority
  unless the node is named \<^verbatim>\<open>__proto__\<close>, for which the table has no number, and every
  distance in the table is a double (\<open>inv_queue\<close>); no node that has left the frontier is
  farther than one that is still in it (\<open>inv_settled\<close>). \<open>inv_relaxing h dh\<close> is what
  holds while the neighbours of the extracted node \<open>h\<close>, at distance \<open>dh\<close>, are relaxed.
\<close>

definition queued :: "state \<Rightarrow> string set" where
  "queued st = element ` set (pq st)"

definition inv_queue :: "state \<Rightarrow> bool" where
  "inv_queue st \<longleftrightarrow>
     distinct (map element (pq st)) \<and> sorted (map priority (pq st)) \<and>
     (\<forall>x \<in> set (pq st). element x \<noteq> proto \<longrightarrow> distances st (element x) = Some (priority x)) \<and>
     distances st proto = None \<and>
     (\<forall>v d. distances st v = Some d \<longrightarrow> is_double d)"

definition inv_settled :: "state \<Rightarrow> bool" where
  "inv_settled st \<longleftrightarrow>
     (\<forall>n d. distances st n = Some d \<longrightarrow> n \<notin> queued st \<longrightarrow>
        (\<forall>x \<in> set (pq st). d \<le> priority x))"

definition inv_relaxing :: "string \<Rightarrow> nat \<Rightarrow> state \<Rightarrow> bool" where
  "inv_relaxing h dh st \<longleftrightarrow>
     inv_queue st \<and> distances st h = Some (enat dh) \<and> h \<notin> queued st \<and>
     (\<forall>n d. distances st n = Some d \<longrightarrow> n \<notin> queued st \<longrightarrow> d \<le> enat dh) \<and>
     (\<forall>x \<in> set (pq st). enat dh \<le> priority x)"

text \<open>
  \<open>walks prev t\<close>: following \<^verbatim>\<open>previousNodes\<close> back from \<open>t\<close> comes to an end.
\<close>

inductive walks :: "(string \<rightharpoonup> string option) \<Rightarrow> string \<Rightarrow> bool"
  for prev :: "string \<rightharpoonup> string option"
where
  walks_stop: "(\<And>u. prev t \<noteq> Some (Some u)) \<Longrightarrow> walks prev t"
| walks_step: "prev t = Some (Some u) \<Longrightarrow> walks prev u \<Longrightarrow> walks prev t"

definition inv_walks :: "state \<Rightarrow> bool" where
  "inv_walks st \<longleftrightarrow>
     (\<forall>v u. previousNodes st v = Some (Some u) \<longrightarrow> u \<notin> queued st) \<and>
     (\<forall>t. t \<notin> queued st \<longrightarrow> walks (previousNodes st) t)"

definition inv_loop :: "state \<Rightarrow> bool" where
  "inv_loop st \<longleftrightarrow> inv_queue st \<and> inv_settled st \<and> inv_walks st"

text \<open>
  \<open>inv_dom\<close>: both tables have exactly the keys of the graph other than \<^verbatim>\<open>__proto__\<close>,
  and the frontier holds only keys. \<open>inv_conn\<close>: a node with a finite distance is
  connected to the start node.
\<close>

definition inv_dom :: "graph \<Rightarrow> state \<Rightarrow> bool" where
  "inv_dom g st \<longleftrightarrow>
     queued st \<subseteq> set (keys g) \<and> dom (distances st) = set (keys g) - {proto} \<and>
     dom (previousNodes st) = set (keys g) - {proto}"

definition inv_conn :: "graph \<Rightarrow> string \<Rightarrow> state \<Rightarrow> bool" where
  "inv_conn g s st \<longleftrightarrow>
     (\<forall>v d. distances st v = Some (enat d) \<longrightarrow> s \<in> set (keys g) \<and> (\<exists>p. is_path g s v p))"

text \<open>
  For the correctness of the result, on a graph without the key \<^verbatim>\<open>__proto__\<close> and with
  sums that are exact. \<open>inv_tree\<close>: the start node stays at distance 0; a
  predecessor is a node with a name that has left the frontier, and the distance of a node
  is that of its predecessor plus the weight of the edge between them; every other node
  with a finite distance has a predecessor. \<open>inv_edges\<close>: every edge out of a node that has
  left the frontier with a finite distance has been relaxed; \<open>inv_edges_but h\<close> leaves out
  the node \<open>h\<close> whose neighbours are being relaxed.
\<close>

definition inv_tree :: "graph \<Rightarrow> string \<Rightarrow> state \<Rightarrow> bool" where
  "inv_tree g s st \<longleftrightarrow>
     (s \<in> set (keys g) \<longrightarrow> distances st s = Some 0) \<and>
     (\<forall>v u. previousNodes st v = Some (Some u) \<longrightarrow>
        v \<noteq> s \<and> u \<noteq> [] \<and> u \<notin> queued st \<and>
        (\<exists>du w. distances st u = Some (enat du) \<and> edge_weight g u v = Some w \<and>
           distances st v = Some (enat (du + w)))) \<and>
     (\<forall>v d. distances st v = Some (enat d) \<longrightarrow>
        v = s \<or> (\<exists>u. previousNodes st v = Some (Some u)))"

definition inv_edges_but :: "graph \<Rightarrow> string \<Rightarrow> state \<Rightarrow> bool" where
  "inv_edges_but g h st \<longleftrightarrow>
     (\<forall>u du v w. u \<noteq> h \<longrightarrow> u \<notin> queued st \<longrightarrow> distances st u = Some (enat du) \<longrightarrow>
        edge_weight g u v = Some w \<longrightarrow> v \<in> set (keys g) \<longrightarrow>
        (\<exists>dv. distances st v = Some dv \<and> dv \<le> enat (du + w)))"

definition inv_edges :: "graph \<Rightarrow> state \<Rightarrow> bool" where
  "inv_edges g st \<longleftrightarrow>
     (\<forall>u du v w. u \<notin> queued st \<longrightarrow> distances st u = Some (enat du) \<longrightarrow>
        edge_weight g u v = Some w \<longrightarrow> v \<in> set (keys g) \<longrightarrow>
        (\<exists>dv. distances st v = Some dv \<and> dv \<le> enat (du + w)))"

definition inv_correct :: "graph \<Rightarrow> string \<Rightarrow> state \<Rightarrow> bool" where
  "inv_correct g s st \<longleftrightarrow>
     inv_loop st \<and> inv_dom g st \<and> inv_tree g s st \<and> inv_edges g st \<and>
     proto \<notin> set (keys g)"

text \<open>\<open>inv_bound b\<close>: no finite distance in the table is above \<open>b\<close>.\<close>

definition inv_bound :: "nat \<Rightarrow> state \<Rightarrow> bool" where
  "inv_bound b st \<longleftrightarrow> (\<forall>v d. distances st v = Some (enat d) \<longrightarrow> d \<le> b)"

text \<open>
  \<open>bounded st v b\<close>: at the head of the loop, the distance of \<open>v\<close> is already at most
  \<open>b\<close>, or some entry of the frontier has a priority of at most \<open>b\<close>.
\<close>

definition bounded :: "state \<Rightarrow> string \<Rightarrow> nat \<Rightarrow> bool" where
  "bounded st v b \<longleftrightarrow>
     (v \<notin> queued st \<and> (\<exists>d. distances st v = Some d \<and> d \<le> enat b)) \<or>
     (\<exists>x \<in> set (pq st). priority x \<le> enat b)"

section \<open>Numbers\<close>

text \<open>
  What the main loop needs of the addition of doubles: a sum of at most \<open>2 ^ 53\<close> is
  exact, a sum is a double, and a sum is never below a summand that is a double.
\<close>

lemma floorlog_eq:
  assumes "2 ^ l \<le> n" and "n < 2 ^ Suc l"
  shows "floorlog 2 n = Suc l"
proof -
  have "floorlog 2 n \<le> Suc l"
    using assms(2) by (intro floorlog_leI) auto
  moreover have "Suc l \<le> floorlog 2 n"
    using assms(1) by (intro floorlog_ge_SucI) auto
  ultimately show ?thesis by simp
qed

lemma ulp_small:
  assumes "n < 2 ^ 53"
  shows "ulp n = 1"
proof -
  have "floorlog 2 n \<le> 53"
    using assms by (intro floorlog_leI) auto
  thus ?thesis by (simp add: ulp_def)
qed

lemma nearest_small:
  assumes "n < 2 ^ 53"
  shows "nearest n = n"
  using ulp_small [OF assms] by (simp add: nearest_def Let_def)

lemma ulp_scaled:
  assumes "2 ^ 52 \<le> k" and "k < 2 ^ 53"
  shows "ulp (k * 2 ^ e) = 2 ^ e"
proof -
  have "floorlog 2 k = Suc 52"
    using assms by (intro floorlog_eq) auto
  moreover have "floorlog 2 (k * 2 ^ e) = floorlog 2 k + e"
    using assms(1) by (intro floorlog_power) auto
  ultimately show ?thesis by (simp add: ulp_def)
qed

lemma ulp_between:
  assumes "2 ^ 52 * 2 ^ e \<le> a" and "a < 2 ^ 53 * 2 ^ e"
  shows "ulp a = 2 ^ e"
proof -
  have "floorlog 2 a = Suc (52 + e)"
    using assms by (intro floorlog_eq) (simp_all add: power_add)
  thus ?thesis by (simp add: ulp_def)
qed

lemma big_decomp:
  assumes "2 ^ 53 \<le> n"
  obtains e where "ulp n = 2 ^ e" and "2 ^ 52 \<le> n div 2 ^ e" and "n div 2 ^ e < 2 ^ 53"
proof -
  define l where "l = floorlog 2 n"
  have n0: "0 < n" using assms by (cases "n = 0") auto
  have "Suc 53 \<le> l"
    unfolding l_def using assms by (intro floorlog_ge_SucI) auto
  moreover define e where "e = l - 54"
  ultimately have l: "l = Suc (52 + e) + 1" by simp
  have b: "2 ^ (l - 1) \<le> n \<and> n < 2 ^ l"
    unfolding l_def using floorlog_bounds [of n 2] n0 by simp
  have u: "ulp n = 2 ^ Suc e"
    using l by (simp add: ulp_def l_def [symmetric])
  have lo: "2 ^ 52 * 2 ^ Suc e \<le> n"
    using b l by (simp add: power_add)
  have hi: "n < 2 ^ 53 * 2 ^ Suc e"
    using b l by (simp add: power_add)
  have "2 ^ 52 \<le> n div 2 ^ Suc e"
    using lo by (simp add: less_eq_div_iff_mult_less_eq)
  moreover have "n div 2 ^ Suc e < 2 ^ 53"
    using hi by (simp add: less_mult_imp_div_less)
  ultimately show ?thesis using u that by blast
qed

lemma nearest_cases:
  obtains k where "nearest n = k * ulp n" and "k = n div ulp n \<or> k = n div ulp n + 1"
proof (cases "2 * (n mod ulp n) < ulp n \<or> (2 * (n mod ulp n) = ulp n \<and> even (n div ulp n))")
  case True
  hence "nearest n = (n div ulp n) * ulp n"
    unfolding nearest_def Let_def by (simp only: if_True)
  thus ?thesis using that by blast
next
  case False
  hence "nearest n = (n div ulp n + 1) * ulp n"
    unfolding nearest_def Let_def by (simp only: if_False)
  thus ?thesis using that by blast
qed

lemma nearest_grid: "ulp (nearest n) dvd nearest n"
proof (cases "n < 2 ^ 53")
  case True
  thus ?thesis by (simp add: nearest_small ulp_small)
next
  case False
  hence "2 ^ 53 \<le> n" by simp
  then obtain e where e: "ulp n = 2 ^ e" "2 ^ 52 \<le> n div 2 ^ e" "n div 2 ^ e < 2 ^ 53"
    by (rule big_decomp)
  obtain k where k: "nearest n = k * ulp n" "k = n div ulp n \<or> k = n div ulp n + 1"
    by (rule nearest_cases)
  show ?thesis
  proof (cases "k < 2 ^ 53")
    case True
    have "2 ^ 52 \<le> k" using k(2) e by auto
    hence "ulp (k * 2 ^ e) = 2 ^ e" using True by (rule ulp_scaled)
    thus ?thesis using k(1) e(1) by simp
  next
    case False
    hence k53: "k = 2 ^ 53" using k(2) e by auto
    have "ulp (2 ^ 52 * 2 ^ Suc e) = 2 ^ Suc e"
      by (rule ulp_scaled) simp_all
    moreover have "nearest n = 2 ^ 52 * 2 ^ Suc e"
      using k(1) e(1) k53 by simp
    ultimately show ?thesis by simp
  qed
qed

lemma nearest_ge:
  assumes "ulp a dvd a" and "a \<le> n"
  shows "a \<le> nearest n"
proof (cases "n < 2 ^ 53")
  case True
  thus ?thesis using assms(2) by (simp add: nearest_small)
next
  case False
  hence "2 ^ 53 \<le> n" by simp
  then obtain e where e: "ulp n = 2 ^ e" "2 ^ 52 \<le> n div 2 ^ e" "n div 2 ^ e < 2 ^ 53"
    by (rule big_decomp)
  define q where "q = n div 2 ^ e"
  obtain k where k: "nearest n = k * ulp n" "k = n div ulp n \<or> k = n div ulp n + 1"
    by (rule nearest_cases)
  have low: "q * 2 ^ e \<le> nearest n"
    using k e(1) by (auto simp: q_def)
  show ?thesis
  proof (cases "a \<le> q * 2 ^ e")
    case True
    thus ?thesis using low by simp
  next
    case False
    hence a1: "q * 2 ^ e < a" by simp
    have n1: "n < (q + 1) * 2 ^ e"
      unfolding q_def using dividend_less_div_times [of "2 ^ e" n] by (simp add: algebra_simps)
    have a2: "a < (q + 1) * 2 ^ e" using assms(2) n1 by simp
    have "2 ^ 52 * 2 ^ e \<le> q * 2 ^ e" using e(2) by (simp add: q_def)
    hence lo: "2 ^ 52 * 2 ^ e \<le> a" using a1 by (rule order_trans [OF _ less_imp_le])
    have "q + 1 \<le> 2 ^ 53" using e(3) by (simp add: q_def)
    hence "(q + 1) * 2 ^ e \<le> 2 ^ 53 * 2 ^ e" by (rule mult_right_mono) simp
    with a2 have hi: "a < 2 ^ 53 * 2 ^ e" by (rule less_le_trans)
    have "ulp a = 2 ^ e" using lo hi by (rule ulp_between)
    then obtain c where c: "a = c * 2 ^ e"
      using assms(1) by (auto simp: dvd_def mult.commute)
    have "q * 2 ^ e < c * 2 ^ e" using a1 c by simp
    hence "q < c" by (rule mult_less_cancel2 [THEN iffD1, THEN conjunct2])
    moreover have "c * 2 ^ e < (q + 1) * 2 ^ e" using a2 c by simp
    hence "c < q + 1" by (rule mult_less_cancel2 [THEN iffD1, THEN conjunct2])
    ultimately show ?thesis by simp
  qed
qed

lemma js_round_exact:
  assumes "n \<le> 2 ^ 53"
  shows "js_round n = enat n"
proof -
  have m: "nearest n = n"
  proof (cases "n < 2 ^ 53")
    case True
    thus ?thesis by (rule nearest_small)
  next
    case False
    hence n: "n = 2 ^ 52 * 2 ^ Suc 0" using assms by simp
    have "ulp (2 ^ 52 * 2 ^ Suc 0) = 2 ^ Suc 0"
      by (rule ulp_scaled) simp_all
    thus ?thesis unfolding n by (simp add: nearest_def Let_def)
  qed
  have "n < 2 ^ 1024"
  proof -
    have "(2::nat) ^ 53 < 2 ^ 1024" by (rule power_strict_increasing) simp_all
    thus ?thesis using assms by simp
  qed
  hence "floorlog 2 n \<le> 1024"
    by (intro floorlog_leI) auto
  thus ?thesis by (simp add: js_round_def m)
qed

lemma is_double_js_round: "is_double (js_round n)"
  by (simp add: js_round_def is_double_def Let_def nearest_grid)

lemma js_round_ge:
  assumes "is_double (enat a)" and "a \<le> n"
  shows "enat a \<le> js_round n"
  using nearest_ge [of a n] assms by (simp add: js_round_def is_double_def Let_def)

lemma is_double_js_add: "is_double (js_add a b)"
  by (cases a; cases b) (simp_all add: js_add_def is_double_js_round, simp_all add: is_double_def)

lemma js_add_ge:
  assumes "is_double a"
  shows "a \<le> js_add a b"
  using assms by (cases a; cases b) (simp_all add: js_add_def js_round_ge)

lemma js_add_exact:
  assumes "x + y \<le> 2 ^ 53"
  shows "js_add (enat x) (enat y) = enat (x + y)"
  using assms by (simp add: js_add_def js_round_exact)

lemma js_add_finite:
  assumes "js_add a b = enat k"
  obtains x y where "a = enat x" and "b = enat y"
  using assms by (cases a; cases b) (simp_all add: js_add_def)

lemma is_double_small: "n \<le> 2 ^ 53 \<Longrightarrow> is_double (enat n)"
  using is_double_js_round [of n] by (simp add: js_round_exact)

lemma is_double_0 [simp]: "is_double 0"
  using is_double_small [of 0] by (simp add: enat_0)

lemma is_double_infinity [simp]: "is_double \<infinity>"
  by (simp add: is_double_def)

lemma js_add_infinity [simp]: "js_add \<infinity> b = \<infinity>" "js_add a \<infinity> = \<infinity>"
  by (simp_all add: js_add_def split: enat.splits)

section \<open>The priority queue\<close>

lemma set_enqueue: "set (enqueue q e p) = insert \<lparr>element = e, priority = p\<rparr> (set q)"
  by (simp add: enqueue_def)

lemma mset_enqueue: "mset (enqueue q e p) = add_mset \<lparr>element = e, priority = p\<rparr> (mset q)"
  by (simp add: enqueue_def)

lemma sorted_enqueue: "sorted (map priority (enqueue q e p))"
  by (simp add: enqueue_def)

lemma findIndex_None: "findIndex P xs = None \<longleftrightarrow> (\<forall>x \<in> set xs. \<not> P x)"
  by (induction xs) auto

lemma findIndex_Some:
  "findIndex P xs = Some i \<Longrightarrow> i < length xs \<and> P (xs ! i) \<and> (\<forall>j < i. \<not> P (xs ! j))"
proof (induction xs arbitrary: i)
  case Nil
  then show ?case by simp
next
  case (Cons x xs)
  show ?case
  proof (cases "P x")
    case True
    with Cons.prems show ?thesis by simp
  next
    case False
    with Cons.prems obtain k where k: "findIndex P xs = Some k" "i = Suc k"
      by auto
    from Cons.IH [OF k(1)] False k(2) show ?thesis
      by (auto simp: nth_Cons less_Suc_eq_0_disj split: nat.splits)
  qed
qed

lemma map_element_update:
  "i < length q \<Longrightarrow> map element (q[i := (q ! i)\<lparr>priority := p\<rparr>]) = map element q"
  by (simp add: map_update list_update_same_conv)

lemma mset_elements_updatePriority:
  "mset (map element (updatePriority q e p)) = mset (map element q)"
proof (cases "findIndex (\<lambda>item. element item = e) q")
  case None
  then show ?thesis by (simp add: updatePriority_def)
next
  case (Some i)
  then have "i < length q" by (auto dest: findIndex_Some)
  then have "map element (q[i := (q ! i)\<lparr>priority := p\<rparr>]) = map element q"
    by (rule map_element_update)
  moreover have "mset (map element (sort_key priority (q[i := (q ! i)\<lparr>priority := p\<rparr>])))
      = mset (map element (q[i := (q ! i)\<lparr>priority := p\<rparr>]))"
    by simp
  ultimately show ?thesis using Some by (simp add: updatePriority_def)
qed

lemma set_elements_updatePriority:
  "element ` set (updatePriority q e p) = element ` set q"
proof -
  have "set_mset (mset (map element (updatePriority q e p))) = set_mset (mset (map element q))"
    by (simp only: mset_elements_updatePriority)
  then show ?thesis by simp
qed

lemma distinct_elements_updatePriority:
  "distinct (map element (updatePriority q e p)) = distinct (map element q)"
  by (rule mset_eq_imp_distinct_iff) (rule mset_elements_updatePriority)

lemma sorted_updatePriority:
  "sorted (map priority q) \<Longrightarrow> sorted (map priority (updatePriority q e p))"
  by (simp add: updatePriority_def split: option.splits)

lemma set_updatePriority:
  assumes "distinct (map element q)"
  shows "set (updatePriority q e p)
    = (\<lambda>x. if element x = e then x\<lparr>priority := p\<rparr> else x) ` set q"
proof (cases "findIndex (\<lambda>item. element item = e) q")
  case None
  then have "\<forall>x \<in> set q. element x \<noteq> e" by (simp add: findIndex_None)
  then have "(\<lambda>x. if element x = e then x\<lparr>priority := p\<rparr> else x) ` set q = set q"
    by force
  with None show ?thesis by (simp add: updatePriority_def)
next
  case (Some i)
  then have i: "i < length q" "element (q ! i) = e" by (auto dest: findIndex_Some)
  from assms have dq: "distinct q" by (simp add: distinct_map)
  have other: "element x \<noteq> e" if "x \<in> set q" "x \<noteq> q ! i" for x
  proof
    assume "element x = e"
    with i have "element x = element (q ! i)" by simp
    moreover have "q ! i \<in> set q" using i by simp
    moreover have "inj_on element (set q)" using assms by (simp add: distinct_map)
    ultimately have "x = q ! i" using that(1)
      by (auto dest: inj_onD)
    with that(2) show False by simp
  qed
  have "set (q[i := (q ! i)\<lparr>priority := p\<rparr>]) = insert ((q ! i)\<lparr>priority := p\<rparr>) (set q - {q ! i})"
    using dq i by (simp add: set_update_distinct)
  also have "\<dots> = (\<lambda>x. if element x = e then x\<lparr>priority := p\<rparr> else x) ` set q"
  proof -
    have "q ! i \<in> set q" using i by simp
    then show ?thesis using i(2) other by (auto simp: image_iff)
  qed
  finally show ?thesis using Some by (simp add: updatePriority_def)
qed


lemma sorted_pq_reachable: "pq_reachable q \<Longrightarrow> sorted (map priority q)"
proof (induction rule: pq_reachable.induct)
  case pq_new
  show ?case by simp
next
  case (pq_enqueue q e p)
  show ?case by (rule sorted_enqueue)
next
  case (pq_updatePriority q e p)
  then show ?case by (simp add: sorted_updatePriority)
next
  case (pq_dequeue q x rest)
  then show ?case by (auto simp: dequeue_def split: list.splits)
qed

lemma enqueue_all_snoc:
  "enqueue_all (xs @ [(e, p)]) = enqueue (enqueue_all xs) e p"
  by (simp add: enqueue_all_def)

lemma enqueue_all_stable:
  "filter (\<lambda>x. priority x = k) (enqueue_all xs)
     = filter (\<lambda>x. priority x = k) (map (\<lambda>(e, p). \<lparr>element = e, priority = p\<rparr>) xs)"
proof (induction xs rule: rev_induct)
  case Nil
  show ?case by (simp add: enqueue_all_def)
next
  case (snoc a xs)
  obtain e p where a: "a = (e, p)" by (cases a)
  have "filter (\<lambda>x. priority x = k) (enqueue_all (xs @ [a]))
      = filter (\<lambda>x. priority x = k) (enqueue_all xs @ [\<lparr>element = e, priority = p\<rparr>])"
    unfolding a enqueue_all_snoc enqueue_def by (rule sort_key_stable)
  with snoc.IH show ?case by (simp add: a)
qed

text \<open>
  C8, as the code has it. In every queue that \<^verbatim>\<open>enqueue\<close>, \<^verbatim>\<open>updatePriority\<close> and
  \<^verbatim>\<open>dequeue\<close> can build, \<^verbatim>\<open>dequeue\<close> returns nothing exactly when the queue is
  empty, and otherwise removes the first entry, whose priority is at most that of every
  entry that remains. Entries of equal priority leave in the order of insertion as long as
  the queue is built by \<^verbatim>\<open>enqueue\<close> alone: among the entries of any one priority, the
  queue keeps the order in which they were enqueued.
\<close>

theorem C8_dequeue_minimum:
  fixes q :: "'a priority_queue"
  shows "pq_reachable q \<Longrightarrow>
     (dequeue q = None \<longleftrightarrow> isEmpty q) \<and>
     (\<forall>x rest. dequeue q = Some (x, rest) \<longrightarrow>
        q = x # rest \<and> (\<forall>y \<in> set rest. priority x \<le> priority y)) \<and>
     (\<forall>k (xs :: ('a \<times> enat) list). filter (\<lambda>x. priority x = k) (enqueue_all xs)
        = filter (\<lambda>x. priority x = k) (map (\<lambda>(e, p). \<lparr>element = e, priority = p\<rparr>) xs))"
proof (intro conjI allI impI)
  show "dequeue q = None \<longleftrightarrow> isEmpty q"
    by (simp add: dequeue_def isEmpty_def split: list.splits)
next
  fix x rest
  assume "dequeue q = Some (x, rest)"
  then show "q = x # rest" by (auto simp: dequeue_def split: list.splits)
next
  fix x rest
  assume r: "pq_reachable q" and d: "dequeue q = Some (x, rest)"
  from d have "q = x # rest" by (auto simp: dequeue_def split: list.splits)
  with sorted_pq_reachable [OF r] show "\<forall>y \<in> set rest. priority x \<le> priority y"
    by simp
next
  fix k and xs :: "('a \<times> enat) list"
  show "filter (\<lambda>x. priority x = k) (enqueue_all xs)
        = filter (\<lambda>x. priority x = k) (map (\<lambda>(e, p). \<lparr>element = e, priority = p\<rparr>) xs)"
    by (rule enqueue_all_stable)
qed

text \<open>
  C8 as stated fails once \<^verbatim>\<open>updatePriority\<close> is used: it rewrites the entry where it
  stands and sorts again, so the entry keeps the place its old priority gave it. Here A is
  enqueued before B, both end with priority 1, and B is extracted first.
\<close>

theorem C8_updatePriority_not_fifo:
  "dequeue (updatePriority (enqueue (enqueue [] ''A'' 5) ''B'' 1) ''A'' 1)
     = Some (\<lparr>element = ''B'', priority = 1\<rparr>, [\<lparr>element = ''A'', priority = 1\<rparr>])"
  by code_simp

text \<open>The theorem at a queue of three entries, two of them of equal priority.\<close>

theorem C8_dequeue_minimum_witness:
  "pq_reachable (enqueue (enqueue (enqueue [] ''A'' 3) ''B'' 1) ''C'' 1) \<and>
   dequeue (enqueue (enqueue (enqueue [] ''A'' 3) ''B'' 1) ''C'' 1)
     = Some (\<lparr>element = ''B'', priority = 1\<rparr>,
         [\<lparr>element = ''C'', priority = 1\<rparr>, \<lparr>element = ''A'', priority = 3\<rparr>]) \<and>
   priority \<lparr>element = ''B'', priority = 1\<rparr> \<le> priority \<lparr>element = ''C'', priority = 1\<rparr> \<and>
   priority \<lparr>element = ''B'', priority = 1\<rparr> \<le> priority \<lparr>element = ''A'', priority = 3\<rparr> \<and>
   filter (\<lambda>x. priority x = 1) (enqueue_all [(''A'', 3), (''B'', 1), (''C'', 1)])
     = [\<lparr>element = ''B'', priority = 1\<rparr>, \<lparr>element = ''C'', priority = 1\<rparr>] \<and>
   \<not> isEmpty (enqueue (enqueue (enqueue [] ''A'' 3) ''B'' 1) ''C'' 1) \<and>
   dequeue ([] :: string priority_queue) = None"
proof -
  let ?q = "enqueue (enqueue (enqueue [] ''A'' 3) ''B'' 1) ''C'' 1"
  have r: "pq_reachable ?q"
    by (intro pq_enqueue pq_new)
  have d: "dequeue ?q = Some (\<lparr>element = ''B'', priority = 1\<rparr>,
         [\<lparr>element = ''C'', priority = 1\<rparr>, \<lparr>element = ''A'', priority = 3\<rparr>])"
    by code_simp
  note t = C8_dequeue_minimum [OF r]
  from t d have m: "\<forall>y \<in> set [\<lparr>element = ''C'', priority = 1\<rparr>, \<lparr>element = ''A'', priority = 3::enat\<rparr>].
      priority \<lparr>element = ''B'', priority = 1::enat\<rparr> \<le> priority y"
    by blast
  from t have f: "filter (\<lambda>x. priority x = 1) (enqueue_all [(''A'', 3), (''B'', 1), (''C'', 1)])
     = filter (\<lambda>x. priority x = 1) (map (\<lambda>(e, p). \<lparr>element = e, priority = p\<rparr>) [(''A'', 3), (''B'', 1), (''C'', 1)])"
    by blast
  from t d have ne: "\<not> isEmpty ?q" by auto
  have e: "dequeue ([] :: string priority_queue) = None"
    using C8_dequeue_minimum [OF pq_new, where ?'a = string] by (simp add: isEmpty_def)
  from r d m f ne e show ?thesis by simp
qed

section \<open>The main loop\<close>

subsection \<open>Relaxing one neighbour\<close>

lemma relax_disj:
  "relax h st (nb, w) = st \<or>
   (\<exists>dc dn. distances st h = Some dc \<and> distances st nb = Some dn \<and>
      js_add dc (enat w) < dn \<and>
      relax h st (nb, w) =
         st\<lparr>distances := (distances st)(nb \<mapsto> js_add dc (enat w)),
            previousNodes := (previousNodes st)(nb \<mapsto> Some h),
            pq := updatePriority (pq st) nb (js_add dc (enat w))\<rparr>)"
  by (simp add: relax_def Let_def split: option.splits)

lemma relax_cases [case_names same upd]:
  obtains "relax h st (nb, w) = st"
  | dc dn where "distances st h = Some dc" "distances st nb = Some dn"
      "js_add dc (enat w) < dn"
      "relax h st (nb, w) =
         st\<lparr>distances := (distances st)(nb \<mapsto> js_add dc (enat w)),
            previousNodes := (previousNodes st)(nb \<mapsto> Some h),
            pq := updatePriority (pq st) nb (js_add dc (enat w))\<rparr>"
  using relax_disj [of h st nb w] by blast

lemma relax_None:
  assumes "distances st h = None"
  shows "relax h st nb = st"
  using assms by (simp add: relax_def split: prod.splits)

lemma foldl_relax_None:
  "distances st h = None \<Longrightarrow> foldl (relax h) st nbrs = st"
  by (induction nbrs) (simp_all add: relax_None)

lemma queued_updatePriority [simp]:
  "queued (st\<lparr>distances := D, previousNodes := P, pq := updatePriority (pq st) n p\<rparr>)
     = queued st"
  by (simp add: queued_def set_elements_updatePriority)

lemma queued_relax [simp]: "queued (relax h st nb) = queued st"
proof (cases nb)
  case (Pair n w)
  show ?thesis unfolding Pair
    by (cases rule: relax_cases [of h st n w]) simp_all
qed

lemma inv_relaxing_double:
  assumes "inv_relaxing h dh st"
  shows "enat dh \<le> js_add (enat dh) b"
proof -
  from assms have "is_double (enat dh)"
    unfolding inv_relaxing_def inv_queue_def by blast
  then show ?thesis by (rule js_add_ge)
qed

lemma relax_updates_queued:
  assumes "inv_relaxing h dh st" "distances st nb = Some dn"
    "js_add (enat dh) (enat w) < dn"
  shows "nb \<in> queued st"
proof (rule ccontr)
  assume "nb \<notin> queued st"
  with assms(1,2) have "dn \<le> enat dh" by (auto simp: inv_relaxing_def)
  also from assms(1) have "enat dh \<le> js_add (enat dh) (enat w)"
    by (rule inv_relaxing_double)
  finally show False using assms(3) by simp
qed

lemma inv_relaxing_relax:
  assumes inv: "inv_relaxing h dh st"
  shows "inv_relaxing h dh (relax h st (nb, w))"
proof (cases rule: relax_cases [of h st nb w])
  case same
  with inv show ?thesis by simp
next
  case (upd dc dn)
  from inv upd(1) have dc: "dc = enat dh" by (simp add: inv_relaxing_def)
  let ?nd = "js_add (enat dh) (enat w)"
  let ?st = "st\<lparr>distances := (distances st)(nb \<mapsto> ?nd),
            previousNodes := (previousNodes st)(nb \<mapsto> Some h),
            pq := updatePriority (pq st) nb ?nd\<rparr>"
  from upd dc have st': "relax h st (nb, w) = ?st" by simp
  from inv have nd: "enat dh \<le> ?nd" by (rule inv_relaxing_double)
  from inv have q: "inv_queue st" and hq: "h \<notin> queued st" and dh: "distances st h = Some (enat dh)"
    and low: "\<forall>n d. distances st n = Some d \<longrightarrow> n \<notin> queued st \<longrightarrow> d \<le> enat dh"
    and high: "\<forall>x \<in> set (pq st). enat dh \<le> priority x"
    by (simp_all add: inv_relaxing_def)
  from upd dc have nbq: "nb \<in> queued st"
    using relax_updates_queued [OF inv] by simp
  with hq have neq: "nb \<noteq> h" by auto
  from q have dist: "distinct (map element (pq st))" by (simp add: inv_queue_def)
  have setq: "set (pq ?st) = (\<lambda>x. if element x = nb then x\<lparr>priority := ?nd\<rparr> else x) ` set (pq st)"
    using dist by (simp add: set_updatePriority)
  from q have np: "distances st proto = None"
    and dbl: "\<forall>v d. distances st v = Some d \<longrightarrow> is_double d"
    by (simp_all add: inv_queue_def)
  from np upd(2) have nbp: "nb \<noteq> proto" by auto
  have "inv_queue ?st"
    unfolding inv_queue_def
  proof (intro conjI ballI impI allI)
    show "distinct (map element (pq ?st))"
      using dist by (simp add: distinct_elements_updatePriority)
    show "sorted (map priority (pq ?st))"
      using q by (simp add: inv_queue_def sorted_updatePriority)
    show "distances ?st proto = None"
      using np nbp by simp
  next
    fix y assume "y \<in> set (pq ?st)" and yp: "element y \<noteq> proto"
    then obtain x where x: "x \<in> set (pq st)"
      and y: "y = (if element x = nb then x\<lparr>priority := ?nd\<rparr> else x)"
      unfolding setq by blast
    from yp y have "element x \<noteq> proto" by (simp split: if_splits)
    with q x have "distances st (element x) = Some (priority x)"
      by (simp add: inv_queue_def)
    then show "distances ?st (element y) = Some (priority y)"
      by (simp add: y)
  next
    fix v d assume "distances ?st v = Some d"
    then have "d = ?nd \<or> distances st v = Some d"
      by (simp split: if_splits)
    with dbl show "is_double d"
      by (auto simp: is_double_js_add)
  qed
  moreover have "distances ?st h = Some (enat dh)"
    using neq dh by simp
  moreover have "h \<notin> queued ?st"
    using hq by simp
  moreover have "\<forall>n d. distances ?st n = Some d \<longrightarrow> n \<notin> queued ?st \<longrightarrow> d \<le> enat dh"
    using low nbq by auto
  moreover have "\<forall>y \<in> set (pq ?st). enat dh \<le> priority y"
  proof
    fix y assume "y \<in> set (pq ?st)"
    then obtain x where x: "x \<in> set (pq st)"
      and y: "y = (if element x = nb then x\<lparr>priority := ?nd\<rparr> else x)"
      unfolding setq by blast
    from high x have "enat dh \<le> priority x" by simp
    with nd show "enat dh \<le> priority y" by (simp add: y)
  qed
  ultimately show ?thesis
    unfolding st' inv_relaxing_def by blast
qed

lemma inv_relaxing_foldl:
  "inv_relaxing h dh st \<Longrightarrow> inv_relaxing h dh (foldl (relax h) st nbrs)"
proof (induction nbrs arbitrary: st)
  case Nil
  then show ?case by simp
next
  case (Cons nb nbrs)
  obtain n w where nb: "nb = (n, w)" by (cases nb)
  from Cons.prems have "inv_relaxing h dh (relax h st nb)"
    unfolding nb by (rule inv_relaxing_relax)
  then show ?case by (simp add: Cons.IH)
qed

lemma inv_relaxing_done:
  assumes "inv_relaxing h dh st"
  shows "inv_queue st" and "inv_settled st"
proof -
  from assms show "inv_queue st" by (simp add: inv_relaxing_def)
  show "inv_settled st"
    unfolding inv_settled_def
  proof (intro allI impI ballI)
    fix n d x
    assume "distances st n = Some d" "n \<notin> queued st" "x \<in> set (pq st)"
    with assms have "d \<le> enat dh" "enat dh \<le> priority x"
      by (auto simp: inv_relaxing_def)
    then show "d \<le> priority x" by (rule order_trans)
  qed
qed

lemma queued_Cons:
  assumes "pq st = x # rest" "distinct (map element (pq st))"
  shows "queued (st\<lparr>pq := rest\<rparr>) = queued st - {element x}"
  using assms by (auto simp: queued_def)

lemma inv_dequeue:
  assumes q: "inv_queue st" and s: "inv_settled st" and pq: "pq st = x # rest"
  shows "inv_queue (st\<lparr>pq := rest\<rparr>)" and "inv_settled (st\<lparr>pq := rest\<rparr>)"
    and "element x \<noteq> proto \<Longrightarrow> distances st (element x) = Some (priority x)"
    and "element x \<notin> queued (st\<lparr>pq := rest\<rparr>)"
    and "\<forall>n d. distances st n = Some d \<longrightarrow> n \<notin> queued (st\<lparr>pq := rest\<rparr>) \<longrightarrow> d \<le> priority x"
    and "\<forall>y \<in> set rest. priority x \<le> priority y"
proof -
  from q pq show iq: "inv_queue (st\<lparr>pq := rest\<rparr>)"
    by (simp add: inv_queue_def)
  from q pq show dx: "element x \<noteq> proto \<Longrightarrow> distances st (element x) = Some (priority x)"
    by (simp add: inv_queue_def)
  from q have np: "distances st proto = None" by (simp add: inv_queue_def)
  from q pq have dist: "distinct (map element (pq st))" by (simp add: inv_queue_def)
  from pq dist have qd: "queued (st\<lparr>pq := rest\<rparr>) = queued st - {element x}"
    by (rule queued_Cons)
  then show "element x \<notin> queued (st\<lparr>pq := rest\<rparr>)" by simp
  from q pq show hi: "\<forall>y \<in> set rest. priority x \<le> priority y"
    by (simp add: inv_queue_def)
  show lo: "\<forall>n d. distances st n = Some d \<longrightarrow> n \<notin> queued (st\<lparr>pq := rest\<rparr>) \<longrightarrow> d \<le> priority x"
  proof (intro allI impI)
    fix n d
    assume d: "distances st n = Some d" and n: "n \<notin> queued (st\<lparr>pq := rest\<rparr>)"
    show "d \<le> priority x"
    proof (cases "n = element x")
      case True
      with d np have "element x \<noteq> proto" by auto
      with d dx True show ?thesis by simp
    next
      case False
      with n qd have "n \<notin> queued st" by simp
      with s d pq show ?thesis by (simp add: inv_settled_def)
    qed
  qed
  show "inv_settled (st\<lparr>pq := rest\<rparr>)"
    unfolding inv_settled_def
  proof (intro allI impI ballI)
    fix n d y
    assume "distances (st\<lparr>pq := rest\<rparr>) n = Some d" "n \<notin> queued (st\<lparr>pq := rest\<rparr>)"
      "y \<in> set (pq (st\<lparr>pq := rest\<rparr>))"
    with lo hi have "d \<le> priority x" "priority x \<le> priority y" by auto
    then show "d \<le> priority y" by (rule order_trans)
  qed
qed

lemma inv_relaxing_start:
  assumes q: "inv_queue st" and s: "inv_settled st" and pq: "pq st = x # rest"
    and dh: "distances st (element x) = Some (enat dh)"
  shows "inv_relaxing (element x) dh (st\<lparr>pq := rest\<rparr>)"
proof -
  note d = inv_dequeue [OF q s pq]
  from q have "distances st proto = None" by (simp add: inv_queue_def)
  with dh have "element x \<noteq> proto" by auto
  with d(3) dh have "priority x = enat dh" by simp
  then show ?thesis
    unfolding inv_relaxing_def using d(1,4,5,6) dh by simp
qed

lemma finite_distance:
  assumes "distances st n \<noteq> Some \<infinity>"
  obtains "distances st n = None" | d where "distances st n = Some (enat d)"
proof (cases "distances st n")
  case None
  then show ?thesis by (rule that(1))
next
  case (Some a)
  with assms obtain d where "a = enat d" by (cases a) auto
  with Some show ?thesis by (simp add: that(2))
qed

declare dijkstra_loop.simps [simp del]

subsection \<open>Initialisation\<close>

lemma init_fold:
  fixes s :: string and ks :: "string list"
  defines "st \<equiv> foldl (init_node s)
       \<lparr>distances = Map.empty, previousNodes = Map.empty, pq = []\<rparr> ks"
  shows "distances st
      = (\<lambda>n. if n \<in> set ks \<and> n \<noteq> proto then Some (if n = s then 0 else \<infinity>) else None)"
    and "previousNodes st = (\<lambda>n. if n \<in> set ks \<and> n \<noteq> proto then Some None else None)"
    and "mset (pq st)
      = mset (map (\<lambda>n. \<lparr>element = n, priority = (if n = s then 0 else \<infinity>)\<rparr>) ks)"
    and "sorted (map priority (pq st))"
  unfolding st_def
proof (induction ks rule: rev_induct)
  case Nil
  {
    case 1 show ?case by simp
  next
    case 2 show ?case by simp
  next
    case 3 show ?case by simp
  next
    case 4 show ?case by simp
  }
next
  case (snoc k ks)
  {
    case 1 show ?case
      using snoc(1) by (auto simp: init_node_def Let_def fun_eq_iff)
  next
    case 2 show ?case
      using snoc(2) by (auto simp: init_node_def Let_def fun_eq_iff)
  next
    case 3 show ?case
      using snoc(3) by (simp add: init_node_def Let_def mset_enqueue)
  next
    case 4 show ?case
      by (simp add: init_node_def Let_def sorted_enqueue)
  }
qed

lemma distances_init:
  "distances (init g s)
     = (\<lambda>n. if n \<in> set (keys g) \<and> n \<noteq> proto then Some (if n = s then 0 else \<infinity>) else None)"
  unfolding init_def keys_def by (rule init_fold)

lemma previousNodes_init:
  "previousNodes (init g s)
     = (\<lambda>n. if n \<in> set (keys g) \<and> n \<noteq> proto then Some None else None)"
  unfolding init_def keys_def by (rule init_fold)

lemma mset_pq_init:
  "mset (pq (init g s))
     = mset (map (\<lambda>n. \<lparr>element = n, priority = (if n = s then 0 else \<infinity>)\<rparr>) (keys g))"
  unfolding init_def keys_def by (rule init_fold)

lemma sorted_pq_init: "sorted (map priority (pq (init g s)))"
  unfolding init_def by (rule init_fold)

lemma set_pq_init:
  "set (pq (init g s))
     = (\<lambda>n. \<lparr>element = n, priority = (if n = s then 0 else \<infinity>)\<rparr>) ` set (keys g)"
proof -
  have "set_mset (mset (pq (init g s)))
      = set_mset (mset (map (\<lambda>n. \<lparr>element = n, priority = (if n = s then 0 else \<infinity>)\<rparr>) (keys g)))"
    by (simp only: mset_pq_init)
  then show ?thesis by simp
qed

lemma mset_elements_init: "mset (map element (pq (init g s))) = mset (keys g)"
proof -
  have "mset (map element (pq (init g s))) = image_mset element (mset (pq (init g s)))"
    by simp
  also have "\<dots> = mset (map element
      (map (\<lambda>n. \<lparr>element = n, priority = (if n = s then 0 else \<infinity>)\<rparr>) (keys g)))"
    by (simp only: mset_pq_init mset_map)
  also have "\<dots> = mset (keys g)"
    by (simp add: comp_def)
  finally show ?thesis .
qed

lemma queued_init: "queued (init g s) = set (keys g)"
proof -
  have "set_mset (mset (map element (pq (init g s)))) = set_mset (mset (keys g))"
    by (simp only: mset_elements_init)
  then show ?thesis by (simp add: queued_def)
qed

lemma length_pq_init: "length (pq (init g s)) = length g"
proof -
  have "size (mset (pq (init g s))) = length (keys g)"
    by (simp only: mset_pq_init size_mset length_map)
  then show ?thesis by (simp add: keys_def)
qed

lemma inv_loop_init:
  assumes "distinct (keys g)"
  shows "inv_loop (init g s)"
proof -
  have "distinct (map element (pq (init g s)))"
    using assms mset_eq_imp_distinct_iff [OF mset_elements_init [of g s]] by simp
  moreover have "\<forall>x \<in> set (pq (init g s)).
      element x \<noteq> proto \<longrightarrow> distances (init g s) (element x) = Some (priority x)"
    by (auto simp: set_pq_init distances_init)
  moreover have "\<forall>v d. distances (init g s) v = Some d \<longrightarrow> is_double d"
    by (auto simp: distances_init split: if_splits)
  ultimately have "inv_queue (init g s)"
    by (simp add: inv_queue_def sorted_pq_init distances_init)
  moreover have "inv_settled (init g s)"
    by (auto simp: inv_settled_def queued_init distances_init split: if_splits)
  moreover have "inv_walks (init g s)"
    unfolding inv_walks_def
  proof (intro conjI allI impI)
    fix v u
    assume "previousNodes (init g s) v = Some (Some u)"
    then show "u \<notin> queued (init g s)"
      by (simp add: previousNodes_init split: if_splits)
  next
    fix t
    show "walks (previousNodes (init g s)) t"
      by (rule walks_stop) (simp add: previousNodes_init)
  qed
  ultimately show ?thesis by (simp add: inv_loop_def)
qed

subsection \<open>The chain of predecessors\<close>

lemma walks_upd:
  assumes "walks P t" and "\<forall>v u. P v = Some (Some u) \<longrightarrow> u \<noteq> nb" and "t \<noteq> nb"
  shows "walks (P(nb \<mapsto> y)) t"
  using assms(1,3)
proof (induction rule: walks.induct)
  case (walks_stop t)
  then show ?case by (auto intro: walks.walks_stop)
next
  case (walks_step t u)
  from assms(2) walks_step.hyps(1) have "u \<noteq> nb" by blast
  then have "walks (P(nb \<mapsto> y)) u" by (rule walks_step.IH)
  moreover from walks_step.hyps(1) walks_step.prems have "(P(nb \<mapsto> y)) t = Some (Some u)"
    by simp
  ultimately show ?case by (rule walks.walks_step [rotated])
qed

lemma inv_walks_dequeue:
  assumes w: "inv_walks st" and pq: "pq st = x # rest"
  shows "inv_walks (st\<lparr>pq := rest\<rparr>)"
  unfolding inv_walks_def
proof (intro conjI allI impI)
  fix v u
  assume "previousNodes (st\<lparr>pq := rest\<rparr>) v = Some (Some u)"
  with w have "u \<notin> queued st" by (simp add: inv_walks_def)
  with pq show "u \<notin> queued (st\<lparr>pq := rest\<rparr>)" by (auto simp: queued_def)
next
  fix t
  assume t: "t \<notin> queued (st\<lparr>pq := rest\<rparr>)"
  show "walks (previousNodes (st\<lparr>pq := rest\<rparr>)) t"
  proof (cases "\<exists>u. previousNodes st t = Some (Some u)")
    case True
    then obtain u where u: "previousNodes st t = Some (Some u)" ..
    with w have "u \<notin> queued st" by (simp add: inv_walks_def)
    with w have "walks (previousNodes st) u" by (simp add: inv_walks_def)
    with u show ?thesis by (simp add: walks_step)
  next
    case False
    then show ?thesis by (auto intro: walks_stop)
  qed
qed

lemma inv_walks_relax:
  assumes r: "inv_relaxing h dh st" and w: "inv_walks st"
  shows "inv_walks (relax h st (nb, c))"
proof (cases rule: relax_cases [of h st nb c])
  case same
  with w show ?thesis by simp
next
  case (upd dc dn)
  from r upd(1) have dc: "dc = enat dh" by (simp add: inv_relaxing_def)
  from upd dc have nbq: "nb \<in> queued st"
    using relax_updates_queued [OF r] by simp
  from r have hq: "h \<notin> queued st" by (simp add: inv_relaxing_def)
  from w nbq have avoid: "\<forall>v u. previousNodes st v = Some (Some u) \<longrightarrow> u \<noteq> nb"
    by (auto simp: inv_walks_def)
  show ?thesis
    unfolding upd(4) inv_walks_def
  proof (intro conjI allI impI)
    fix v u
    assume "previousNodes (st\<lparr>distances := (distances st)(nb \<mapsto> js_add dc (enat c)),
            previousNodes := (previousNodes st)(nb \<mapsto> Some h),
            pq := updatePriority (pq st) nb (js_add dc (enat c))\<rparr>) v = Some (Some u)"
    then have "u = h \<or> previousNodes st v = Some (Some u)"
      by (simp split: if_splits)
    with hq w show "u \<notin> queued (st\<lparr>distances := (distances st)(nb \<mapsto> js_add dc (enat c)),
            previousNodes := (previousNodes st)(nb \<mapsto> Some h),
            pq := updatePriority (pq st) nb (js_add dc (enat c))\<rparr>)"
      by (auto simp: inv_walks_def)
  next
    fix t
    assume "t \<notin> queued (st\<lparr>distances := (distances st)(nb \<mapsto> js_add dc (enat c)),
            previousNodes := (previousNodes st)(nb \<mapsto> Some h),
            pq := updatePriority (pq st) nb (js_add dc (enat c))\<rparr>)"
    then have t: "t \<notin> queued st" by simp
    with nbq have "t \<noteq> nb" by auto
    moreover from w t have "walks (previousNodes st) t" by (simp add: inv_walks_def)
    ultimately have "walks ((previousNodes st)(nb \<mapsto> Some h)) t"
      using avoid by (auto intro: walks_upd)
    then show "walks (previousNodes (st\<lparr>distances := (distances st)(nb \<mapsto> js_add dc (enat c)),
            previousNodes := (previousNodes st)(nb \<mapsto> Some h),
            pq := updatePriority (pq st) nb (js_add dc (enat c))\<rparr>)) t"
      by simp
  qed
qed

lemma inv_walks_foldl:
  "inv_relaxing h dh st \<Longrightarrow> inv_walks st \<Longrightarrow> inv_walks (foldl (relax h) st nbrs)"
proof (induction nbrs arbitrary: st)
  case Nil
  then show ?case by simp
next
  case (Cons nb nbrs)
  obtain n c where nb: "nb = (n, c)" by (cases nb)
  from Cons.prems have "inv_relaxing h dh (relax h st nb)" "inv_walks (relax h st nb)"
    unfolding nb by (simp_all add: inv_relaxing_relax inv_walks_relax)
  then show ?case by (simp add: Cons.IH)
qed

subsection \<open>One iteration\<close>

lemma dequeue_Some: "dequeue q = Some (x, rest) \<longleftrightarrow> q = x # rest"
  by (auto simp: dequeue_def split: list.splits)

lemma loop_body_cases [case_names skip found leaf relaxed]:
  obtains "element x = [] \<or> distances st (element x) = Some \<infinity>"
      "loop_body g e x st = Continue st"
  | "element x \<noteq> []" "distances st (element x) \<noteq> Some \<infinity>" "element x = e"
      "loop_body g e x st = Found st"
  | "element x \<noteq> []" "distances st (element x) \<noteq> Some \<infinity>" "element x \<noteq> e"
      "map_of g (element x) = None" "loop_body g e x st = Continue st"
  | nbrs where "element x \<noteq> []" "distances st (element x) \<noteq> Some \<infinity>" "element x \<noteq> e"
      "map_of g (element x) = Some nbrs"
      "loop_body g e x st = Continue (foldl (relax (element x)) st nbrs)"
  by (cases "map_of g (element x)") (auto simp: loop_body_def Let_def)

lemma inv_loop_step:
  assumes inv: "inv_loop st" and deq: "dequeue (pq st) = Some (x, rest)"
    and body: "loop_body g e x (st\<lparr>pq := rest\<rparr>) = Continue st'"
  shows "inv_loop st'"
proof -
  from deq have pq: "pq st = x # rest" by (simp add: dequeue_Some)
  from inv have q: "inv_queue st" and s: "inv_settled st" and w: "inv_walks st"
    by (simp_all add: inv_loop_def)
  note d = inv_dequeue [OF q s pq]
  have w1: "inv_walks (st\<lparr>pq := rest\<rparr>)" using w pq by (rule inv_walks_dequeue)
  have plain: "inv_loop (st\<lparr>pq := rest\<rparr>)"
    using d(1,2) w1 by (simp add: inv_loop_def)
  show ?thesis
  proof (cases rule: loop_body_cases [where x = x and st = "st\<lparr>pq := rest\<rparr>" and e = e and g = g])
    case skip
    with body plain show ?thesis by simp
  next
    case found
    with body show ?thesis by simp
  next
    case leaf
    with body plain show ?thesis by simp
  next
    case (relaxed nbrs)
    from relaxed(2) have "distances st (element x) \<noteq> Some \<infinity>" by simp
    then have "inv_loop (foldl (relax (element x)) (st\<lparr>pq := rest\<rparr>) nbrs)"
    proof (cases rule: finite_distance)
      case 1
      then have "foldl (relax (element x)) (st\<lparr>pq := rest\<rparr>) nbrs = st\<lparr>pq := rest\<rparr>"
        by (intro foldl_relax_None) simp
      with plain show ?thesis by simp
    next
      case (2 dh)
      with q s pq have r: "inv_relaxing (element x) dh (st\<lparr>pq := rest\<rparr>)"
        by (rule inv_relaxing_start)
      then have "inv_relaxing (element x) dh (foldl (relax (element x)) (st\<lparr>pq := rest\<rparr>) nbrs)"
        by (rule inv_relaxing_foldl)
      moreover from r w1
      have "inv_walks (foldl (relax (element x)) (st\<lparr>pq := rest\<rparr>) nbrs)"
        by (rule inv_walks_foldl)
      ultimately show ?thesis
        by (simp add: inv_loop_def inv_relaxing_done)
    qed
    with body relaxed show ?thesis by simp
  qed
qed

lemma inv_loop_loop_state:
  assumes "distinct (keys g)" "loop_state g s e n st"
  shows "inv_loop st"
  using assms(2)
proof (induction rule: loop_state.induct)
  case loop_state_init
  from assms(1) show ?case by (rule inv_loop_init)
next
  case (loop_state_step n st x rest st')
  then show ?case by (auto intro: inv_loop_step)
qed

subsection \<open>The walks end\<close>

lemma walk_back_None [simp]: "walk_back P s e None acc = Some (Walked acc)"
  by (subst walk_back.simps) simp

lemma walk_back_terminates:
  "walks P t \<Longrightarrow> \<exists>w. walk_back P s e (Some t) acc = Some w"
proof (induction arbitrary: acc rule: walks.induct)
  case (walks_stop t)
  then have "P t = None \<or> P t = Some None"
    by (cases "P t") auto
  then show ?case
    by (subst walk_back.simps) auto
next
  case (walks_step t u)
  from walks_step.IH [of "t # acc"] walks_step.hyps(1) show ?case
    by (subst walk_back.simps) auto
qed

lemma walk_again_stop [simp]:
  "walk_again P s None acc = Some acc" "walk_again P s (Some None) acc = Some acc"
  by (subst walk_again.simps, simp)+

lemma walk_again_terminates:
  "walks P t \<Longrightarrow> \<exists>w. walk_again P s (Some (Some t)) acc = Some w"
proof (induction arbitrary: acc rule: walks.induct)
  case (walks_stop t)
  then have "P t = None \<or> P t = Some None"
    by (cases "P t") auto
  then show ?case
    by (subst walk_again.simps) auto
next
  case (walks_step t u)
  from walks_step.IH [of "t # acc"] walks_step.hyps(1) show ?case
    by (subst walk_again.simps) auto
qed

lemma reconstruct_terminates:
  assumes "walks (previousNodes st) e"
  shows "\<exists>r. reconstruct s e st = Some r"
proof -
  from assms obtain w where w: "walk_back (previousNodes st) s e (Some e) [] = Some w"
    using walk_back_terminates by blast
  from assms obtain w' where w': "walk_again (previousNodes st) s (Some (Some e)) [] = Some w'"
    using walk_again_terminates by blast
  show ?thesis
    by (cases w) (simp_all add: reconstruct_def w w' Let_def)
qed

lemma dijkstra_loop_terminates:
  "inv_loop st \<Longrightarrow> \<exists>r. dijkstra_loop g s e st = Some r"
proof (induction g s e st rule: dijkstra_loop.induct)
  case (1 g s e st)
  show ?case
  proof (cases "dequeue (pq st)")
    case None
    then show ?thesis by (subst dijkstra_loop.simps) simp
  next
    case (Some xr)
    obtain x rest where xr: "xr = (x, rest)" by (cases xr)
    from Some xr have deq: "dequeue (pq st) = Some (x, rest)" by simp
    show ?thesis
    proof (cases "loop_body g e x (st\<lparr>pq := rest\<rparr>)")
      case (Continue st')
      have "inv_loop st'" using "1.prems" deq Continue by (rule inv_loop_step)
      with "1.IH" [OF Some xr [symmetric] Continue]
      have "\<exists>r. dijkstra_loop g s e st' = Some r" .
      with deq Continue show ?thesis
        by (subst dijkstra_loop.simps) simp
    next
      case (Found st')
      have st': "st' = st\<lparr>pq := rest\<rparr>"
        using Found by (cases rule: loop_body_cases [where x = x and st = "st\<lparr>pq := rest\<rparr>" and e = e and g = g]) simp_all
      from deq have pq: "pq st = x # rest" by (simp add: dequeue_Some)
      from "1.prems" have q: "inv_queue st" and sq: "inv_settled st" and w: "inv_walks st"
        by (simp_all add: inv_loop_def)
      have ex: "element x = e"
        using Found by (cases rule: loop_body_cases [where x = x and st = "st\<lparr>pq := rest\<rparr>" and e = e and g = g]) simp_all
      from inv_dequeue(4) [OF q sq pq] ex have "e \<notin> queued st'" by (simp add: st')
      moreover from w pq have "inv_walks st'" unfolding st' by (rule inv_walks_dequeue)
      ultimately have "walks (previousNodes st') e" by (simp add: inv_walks_def)
      then have "\<exists>r. reconstruct s e st' = Some r" by (rule reconstruct_terminates)
      with deq Found show ?thesis
        by (subst dijkstra_loop.simps) simp
    qed
  qed
qed

lemma dijkstra_terminates:
  "distinct (keys g) \<Longrightarrow> \<exists>r. dijkstra g s e = Some r"
  unfolding dijkstra_def by (intro dijkstra_loop_terminates inv_loop_init)

section \<open>Termination\<close>

lemma wf_graph_keys: "wf_graph g \<Longrightarrow> distinct (keys g)"
  by (simp add: wf_graph_def keys_def)

lemma mset_elements_relax:
  "mset (map element (pq (relax h st nb))) = mset (map element (pq st))"
proof (cases nb)
  case (Pair n w)
  show ?thesis
  proof (cases rule: relax_cases [of h st n w])
    case same
    then show ?thesis by (simp add: Pair)
  next
    case (upd dc dn)
    show ?thesis unfolding Pair upd(4)
      using mset_elements_updatePriority [of "pq st" n "js_add dc (enat w)"] by simp
  qed
qed

lemma mset_elements_foldl_relax:
  "mset (map element (pq (foldl (relax h) st nbrs))) = mset (map element (pq st))"
proof (induction nbrs arbitrary: st)
  case Nil
  show ?case by simp
next
  case (Cons nb nbrs)
  have "mset (map element (pq (foldl (relax h) (relax h st nb) nbrs)))
      = mset (map element (pq (relax h st nb)))" by (rule Cons.IH)
  also have "\<dots> = mset (map element (pq st))" by (rule mset_elements_relax)
  finally show ?case by simp
qed

lemma loop_body_Continue_elements:
  assumes "loop_body g e x st = Continue st'"
  shows "mset (map element (pq st')) = mset (map element (pq st))"
proof (cases rule: loop_body_cases [where x = x and st = st and e = e and g = g])
  case skip
  with assms show ?thesis by simp
next
  case found
  with assms show ?thesis by simp
next
  case leaf
  with assms show ?thesis by simp
next
  case (relaxed nbrs)
  with assms have "st' = foldl (relax (element x)) st nbrs" by simp
  then show ?thesis by (simp only: mset_elements_foldl_relax)
qed

lemma iteration_removes_one:
  assumes "dequeue (pq st) = Some (x, rest)"
    and "loop_body g e x (st\<lparr>pq := rest\<rparr>) = Continue st'"
  shows "mset (map element (pq st)) = add_mset (element x) (mset (map element (pq st')))"
proof -
  from assms(1) have "pq st = x # rest" by (simp add: dequeue_Some)
  moreover from loop_body_Continue_elements [OF assms(2)]
  have "mset (map element (pq st')) = mset (map element rest)"
    by simp
  ultimately show ?thesis by simp
qed

lemma loop_state_length:
  "loop_state g s e n st \<Longrightarrow> n + length (pq st) = length (keys g)"
proof (induction rule: loop_state.induct)
  case loop_state_init
  show ?case by (simp add: length_pq_init keys_def)
next
  case (loop_state_step n st x rest st')
  from iteration_removes_one [OF loop_state_step.hyps(2,3)]
  have "size (mset (map element (pq st))) = size (add_mset (element x) (mset (map element (pq st'))))"
    by simp
  then have "length (pq st) = Suc (length (pq st'))" by simp
  with loop_state_step.IH show ?case by simp
qed

text \<open>
  C9. For every graph (an object, so with each key once) and every pair of nodes
  \<^verbatim>\<open>dijkstra\<close> terminates. The frontier
  starts with one entry per key of the graph; an iteration of the main loop that goes round
  again removes exactly the extracted entry and adds none; so after \<open>n\<close> iterations the
  frontier holds \<open>n\<close> entries fewer than the graph has keys, and the loop cannot run more
  often than the graph has nodes. The walk along \<^verbatim>\<open>previousNodes\<close> that reconstructs the
  path ends as well: a predecessor has always left the frontier before the node it
  precedes.
\<close>

theorem C9_terminates:
  assumes "wf_graph g"
  shows "(\<exists>r. dijkstra g startNode endNode = Some r) \<and>
    mset (map element (pq (init g startNode))) = mset (keys g) \<and>
    (\<forall>st e rest st'.
       dequeue (pq st) = Some (e, rest) \<longrightarrow>
       loop_body g endNode e (st\<lparr>pq := rest\<rparr>) = Continue st' \<longrightarrow>
       mset (map element (pq st)) = add_mset (element e) (mset (map element (pq st')))) \<and>
    (\<forall>n st. loop_state g startNode endNode n st \<longrightarrow> n + length (pq st) = length (keys g))"
proof (intro conjI allI impI)
  from assms have "distinct (keys g)" by (rule wf_graph_keys)
  then show "\<exists>r. dijkstra g startNode endNode = Some r" by (rule dijkstra_terminates)
next
  show "mset (map element (pq (init g startNode))) = mset (keys g)"
    by (rule mset_elements_init)
next
  fix st e rest st'
  assume "dequeue (pq st) = Some (e, rest)"
    "loop_body g endNode e (st\<lparr>pq := rest\<rparr>) = Continue st'"
  then show "mset (map element (pq st)) = add_mset (element e) (mset (map element (pq st')))"
    by (rule iteration_removes_one)
next
  fix n st
  assume "loop_state g startNode endNode n st"
  then show "n + length (pq st) = length (keys g)" by (rule loop_state_length)
qed

text \<open>The theorem on scenario 3 of the specification, from A to the isolated node C.\<close>

lemma wf_scenario3: "wf_graph scenario3"
  by (simp add: wf_graph_def scenario3_def)

lemma init_scenario3_dequeue:
  "dequeue (pq (init scenario3 ''A'')) =
     Some (\<lparr>element = ''A'', priority = 0\<rparr>,
       [\<lparr>element = ''B'', priority = \<infinity>\<rparr>, \<lparr>element = ''C'', priority = \<infinity>\<rparr>])"
  by code_simp

lemma init_scenario3_body:
  "loop_body scenario3 ''C'' \<lparr>element = ''A'', priority = 0\<rparr>
     (init scenario3 ''A''
        \<lparr>pq := [\<lparr>element = ''B'', priority = \<infinity>\<rparr>, \<lparr>element = ''C'', priority = \<infinity>\<rparr>]\<rparr>)
   = Continue (foldl (relax ''A'')
       (init scenario3 ''A''
          \<lparr>pq := [\<lparr>element = ''B'', priority = \<infinity>\<rparr>, \<lparr>element = ''C'', priority = \<infinity>\<rparr>]\<rparr>)
       [(''B'', 1)])"
  by (simp add: loop_body_def Let_def distances_init keys_def scenario3_def proto_def)

theorem C9_terminates_witness:
  "wf_graph scenario3 \<and>
   dijkstra scenario3 ''A'' ''C'' = Some None \<and>
   mset (map element (pq (init scenario3 ''A''))) = mset [''A'', ''B'', ''C''] \<and>
   mset (map element (pq (init scenario3 ''A'')))
     = add_mset ''A'' (mset (map element (pq (foldl (relax ''A'')
         (init scenario3 ''A''
            \<lparr>pq := [\<lparr>element = ''B'', priority = \<infinity>\<rparr>, \<lparr>element = ''C'', priority = \<infinity>\<rparr>]\<rparr>)
         [(''B'', 1)])))) \<and>
   loop_state scenario3 ''A'' ''C'' 1 (foldl (relax ''A'')
         (init scenario3 ''A''
            \<lparr>pq := [\<lparr>element = ''B'', priority = \<infinity>\<rparr>, \<lparr>element = ''C'', priority = \<infinity>\<rparr>]\<rparr>)
         [(''B'', 1)]) \<and>
   1 + length (pq (foldl (relax ''A'')
         (init scenario3 ''A''
            \<lparr>pq := [\<lparr>element = ''B'', priority = \<infinity>\<rparr>, \<lparr>element = ''C'', priority = \<infinity>\<rparr>]\<rparr>)
         [(''B'', 1)])) = 3"
proof -
  note t = C9_terminates [OF wf_scenario3, of "''A''" "''C''"]
  have r: "dijkstra scenario3 ''A'' ''C'' = Some None" by code_simp
  have k: "keys scenario3 = [''A'', ''B'', ''C'']" by (simp add: keys_def scenario3_def)
  have ls: "loop_state scenario3 ''A'' ''C'' (Suc 0) (foldl (relax ''A'')
         (init scenario3 ''A''
            \<lparr>pq := [\<lparr>element = ''B'', priority = \<infinity>\<rparr>, \<lparr>element = ''C'', priority = \<infinity>\<rparr>]\<rparr>)
         [(''B'', 1)])"
    by (rule loop_state_step [OF loop_state_init init_scenario3_dequeue init_scenario3_body])
  from t have "\<exists>r. dijkstra scenario3 ''A'' ''C'' = Some r" by blast
  moreover from t k have "mset (map element (pq (init scenario3 ''A''))) = mset [''A'', ''B'', ''C'']"
    by simp
  moreover from t init_scenario3_dequeue init_scenario3_body
  have "mset (map element (pq (init scenario3 ''A'')))
     = add_mset (element \<lparr>element = ''A'', priority = 0::enat\<rparr>) (mset (map element (pq (foldl (relax ''A'')
         (init scenario3 ''A''
            \<lparr>pq := [\<lparr>element = ''B'', priority = \<infinity>\<rparr>, \<lparr>element = ''C'', priority = \<infinity>\<rparr>]\<rparr>)
         [(''B'', 1)]))))"
    by blast
  moreover from t ls k have "Suc 0 + length (pq (foldl (relax ''A'')
         (init scenario3 ''A''
            \<lparr>pq := [\<lparr>element = ''B'', priority = \<infinity>\<rparr>, \<lparr>element = ''C'', priority = \<infinity>\<rparr>]\<rparr>)
         [(''B'', 1)])) = length [''A'', ''B'', ''C'']"
    by metis
  ultimately show ?thesis using wf_scenario3 r ls by simp
qed

section \<open>Stale entries\<close>

text \<open>
  The engine has no test for a stale entry: the body of the loop reads only the element
  of the extracted entry, and \<^verbatim>\<open>updatePriority\<close> rewrites the entry of a node where it
  stands. So for every node but \<^verbatim>\<open>__proto__\<close> the priority recorded in the extracted
  entry is the current value of the distance table.
\<close>

lemma loop_body_ignores_priority:
  "loop_body g e (x\<lparr>priority := p\<rparr>) st = loop_body g e x st"
  by (simp add: loop_body_def)

lemma no_stale_entry:
  assumes "wf_graph g" and "loop_state g startNode endNode n st"
    and "dequeue (pq st) = Some (x, rest)" and "element x \<noteq> proto"
  shows "distances st (element x) = Some (priority x)"
proof -
  from assms(1) have "distinct (keys g)" by (rule wf_graph_keys)
  then have "inv_loop st" using assms(2) by (rule inv_loop_loop_state)
  then have "inv_queue st" by (simp add: inv_loop_def)
  moreover from assms(3) have "pq st = x # rest" by (simp add: dequeue_Some)
  ultimately show ?thesis using assms(4) by (simp add: inv_queue_def)
qed

lemma proto_entry_is_stale:
  assumes "wf_graph g" and "loop_state g startNode endNode n st"
  shows "distances st proto = None"
proof -
  from assms(1) have "distinct (keys g)" by (rule wf_graph_keys)
  then have "inv_loop st" using assms(2) by (rule inv_loop_loop_state)
  then show ?thesis by (simp add: inv_loop_def inv_queue_def)
qed


text \<open>Scenario 4 at its first iteration, used below.\<close>

lemma wf_scenario4: "wf_graph scenario4"
  by (simp add: wf_graph_def scenario4_def)

lemma init_scenario4_dequeue:
  "dequeue (pq (init scenario4 ''A'')) =
     Some (\<lparr>element = ''A'', priority = 0\<rparr>, [\<lparr>element = ''B'', priority = \<infinity>\<rparr>])"
  by code_simp

section \<open>Distances and predecessors\<close>

lemma improves_refl: "improves st st"
  by (simp add: improves_def)

lemma improves_trans:
  assumes "improves a b" "improves b c"
  shows "improves a c"
  unfolding improves_def
proof
  fix v
  let ?goal = "(distances c v = distances a v \<and> previousNodes c v = previousNodes a v) \<or>
          (\<exists>d d' u. distances a v = Some d \<and> distances c v = Some d' \<and> d' < d \<and>
             previousNodes c v = Some (Some u))"
  from assms(1) consider
      (same) "distances b v = distances a v" "previousNodes b v = previousNodes a v"
    | (less) d d' u where "distances a v = Some d" "distances b v = Some d'" "d' < d"
        "previousNodes b v = Some (Some u)"
    unfolding improves_def by blast
  then show ?goal
  proof cases
    case same
    with assms(2) show ?thesis unfolding improves_def by metis
  next
    case (less d d' u)
    from assms(2) consider
        (same') "distances c v = distances b v" "previousNodes c v = previousNodes b v"
      | (less') e e' u' where "distances b v = Some e" "distances c v = Some e'" "e' < e"
          "previousNodes c v = Some (Some u')"
      unfolding improves_def by blast
    then show ?thesis
    proof cases
      case same'
      with less show ?thesis by simp
    next
      case (less' e e' u')
      with less have "e' < d" by simp
      with less less' show ?thesis by simp
    qed
  qed
qed

lemma improves_relax: "improves st (relax h st nb)"
proof (cases nb)
  case (Pair n w)
  show ?thesis
  proof (cases rule: relax_cases [of h st n w])
    case same
    then show ?thesis by (simp add: Pair improves_refl)
  next
    case (upd dc dn)
    then show ?thesis unfolding Pair upd(4) improves_def by auto
  qed
qed

lemma improves_foldl_relax: "improves st (foldl (relax h) st nbrs)"
proof (induction nbrs arbitrary: st)
  case Nil
  show ?case by (simp add: improves_refl)
next
  case (Cons nb nbrs)
  have "improves st (relax h st nb)" by (rule improves_relax)
  moreover have "improves (relax h st nb) (foldl (relax h) (relax h st nb) nbrs)"
    by (rule Cons.IH)
  ultimately show ?case by (auto intro: improves_trans)
qed

lemma improves_pq: "improves st st' \<Longrightarrow> improves (st\<lparr>pq := q\<rparr>) st'"
  by (simp add: improves_def)

lemma improves_iteration:
  assumes "loop_body g e x (st\<lparr>pq := rest\<rparr>) = Continue st'"
  shows "improves st st'"
proof (cases rule: loop_body_cases [where x = x and st = "st\<lparr>pq := rest\<rparr>" and e = e and g = g])
  case skip
  with assms show ?thesis by (auto simp: improves_def)
next
  case found
  with assms show ?thesis by simp
next
  case leaf
  with assms show ?thesis by (auto simp: improves_def)
next
  case (relaxed nbrs)
  with assms have "st' = foldl (relax (element x)) (st\<lparr>pq := rest\<rparr>) nbrs" by simp
  moreover have "improves (st\<lparr>pq := rest\<rparr>) (foldl (relax (element x)) (st\<lparr>pq := rest\<rparr>) nbrs)"
    by (rule improves_foldl_relax)
  ultimately show ?thesis by (simp add: improves_def)
qed

lemma loop_state_0: "loop_state g s e 0 st \<Longrightarrow> st = init g s"
  by (cases rule: loop_state.cases) auto

lemma loop_state_deterministic:
  "loop_state g s e n a \<Longrightarrow> loop_state g s e n b \<Longrightarrow> a = b"
proof (induction arbitrary: b rule: loop_state.induct)
  case loop_state_init
  then show ?case by (auto dest: loop_state_0)
next
  case (loop_state_step n st x rest st')
  from loop_state_step.prems obtain st2 x2 rest2 where
    b: "loop_state g s e n st2" "dequeue (pq st2) = Some (x2, rest2)"
      "loop_body g e x2 (st2\<lparr>pq := rest2\<rparr>) = Continue b"
    by (cases rule: loop_state.cases) auto
  from loop_state_step.IH [OF b(1)] have "st = st2" .
  with loop_state_step.hyps(2,3) b(2,3) show ?case by simp
qed

lemma loop_state_improves:
  assumes "loop_state g s e i a" and "loop_state g s e j b" and "i \<le> j"
  shows "improves a b"
  using assms(2,3)
proof (induction rule: loop_state.induct)
  case loop_state_init
  then have "i = 0" by simp
  with assms(1) have "a = init g s" by (simp add: loop_state_0)
  then show ?case by (simp add: improves_refl)
next
  case (loop_state_step n st x rest st')
  show ?case
  proof (cases "i = Suc n")
    case True
    have "loop_state g s e (Suc n) st'"
      using loop_state_step.hyps by (rule loop_state.loop_state_step)
    with assms(1) True have "a = st'" by (auto intro: loop_state_deterministic)
    then show ?thesis by (simp add: improves_refl)
  next
    case False
    with loop_state_step.prems have "i \<le> n" by simp
    then have "improves a st" by (rule loop_state_step.IH)
    moreover have "improves st st'" using loop_state_step.hyps(3) by (rule improves_iteration)
    ultimately show ?thesis by (rule improves_trans)
  qed
qed

text \<open>
  C7. The two tables are written after initialisation only when a neighbour is relaxed
  (lines 103 and 104), and there together: relaxing a neighbour either leaves both tables
  as they are, or replaces the neighbour's distance by a strictly smaller one and sets its
  predecessor to the current node. Hence between any two heads of the main loop in a run,
  the earlier one first, every node either keeps both entries, or has a strictly smaller
  distance and a predecessor that has been set.
\<close>

theorem C7_distances_decrease_with_predecessor:
  "((distances (relax h st (nb, w)) = distances st \<and>
      previousNodes (relax h st (nb, w)) = previousNodes st) \<or>
    (\<exists>d d'. distances st nb = Some d \<and> d' < d \<and>
       distances (relax h st (nb, w)) = (distances st)(nb \<mapsto> d') \<and>
       previousNodes (relax h st (nb, w)) = (previousNodes st)(nb \<mapsto> Some h))) \<and>
   (loop_state g startNode endNode i st1 \<longrightarrow> loop_state g startNode endNode j st2 \<longrightarrow>
      i \<le> j \<longrightarrow> improves st1 st2)"
proof (intro conjI impI)
  show "(distances (relax h st (nb, w)) = distances st \<and>
      previousNodes (relax h st (nb, w)) = previousNodes st) \<or>
    (\<exists>d d'. distances st nb = Some d \<and> d' < d \<and>
       distances (relax h st (nb, w)) = (distances st)(nb \<mapsto> d') \<and>
       previousNodes (relax h st (nb, w)) = (previousNodes st)(nb \<mapsto> Some h))"
    by (cases rule: relax_cases [of h st nb w]) auto
next
  assume "loop_state g startNode endNode i st1" "loop_state g startNode endNode j st2" "i \<le> j"
  then show "improves st1 st2" by (rule loop_state_improves)
qed

text \<open>The theorem at the first iteration of scenario 4, where B goes from infinity to 0.\<close>

lemma init_scenario4_body:
  "loop_body scenario4 ''B'' \<lparr>element = ''A'', priority = 0\<rparr>
     (init scenario4 ''A''\<lparr>pq := [\<lparr>element = ''B'', priority = \<infinity>\<rparr>]\<rparr>)
   = Continue (foldl (relax ''A'')
       (init scenario4 ''A''\<lparr>pq := [\<lparr>element = ''B'', priority = \<infinity>\<rparr>]\<rparr>) [(''B'', 0)])"
  by (simp add: loop_body_def Let_def distances_init keys_def scenario4_def proto_def)

theorem C7_distances_decrease_with_predecessor_witness:
  "distances (init scenario4 ''A'') ''B'' = Some \<infinity> \<and>
   distances (relax ''A'' (init scenario4 ''A'') (''B'', 0)) ''B'' = Some 0 \<and>
   previousNodes (relax ''A'' (init scenario4 ''A'') (''B'', 0)) ''B'' = Some (Some ''A'') \<and>
   loop_state scenario4 ''A'' ''B'' 0 (init scenario4 ''A'') \<and>
   loop_state scenario4 ''A'' ''B'' 1 (foldl (relax ''A'')
       (init scenario4 ''A''\<lparr>pq := [\<lparr>element = ''B'', priority = \<infinity>\<rparr>]\<rparr>) [(''B'', 0)]) \<and>
   improves (init scenario4 ''A'') (foldl (relax ''A'')
       (init scenario4 ''A''\<lparr>pq := [\<lparr>element = ''B'', priority = \<infinity>\<rparr>]\<rparr>) [(''B'', 0)])"
proof -
  let ?st' = "foldl (relax ''A'')
       (init scenario4 ''A''\<lparr>pq := [\<lparr>element = ''B'', priority = \<infinity>\<rparr>]\<rparr>) [(''B'', 0)]"
  have l0: "loop_state scenario4 ''A'' ''B'' 0 (init scenario4 ''A'')"
    by (rule loop_state_init)
  have l1: "loop_state scenario4 ''A'' ''B'' (Suc 0) ?st'"
    by (rule loop_state_step [OF loop_state_init init_scenario4_dequeue init_scenario4_body])
  note t = C7_distances_decrease_with_predecessor
    [of "''A''" "init scenario4 ''A''" "''B''" 0 scenario4 "''A''" "''B''" 0 "init scenario4 ''A''"
      "Suc 0" ?st']
  from t l0 l1 have i: "improves (init scenario4 ''A'') ?st'" by simp
  have d0: "distances (init scenario4 ''A'') ''B'' = Some \<infinity>"
    by (simp add: distances_init keys_def scenario4_def proto_def)
  from t d0 have "distances (relax ''A'' (init scenario4 ''A'') (''B'', 0)) ''B'' \<noteq> Some \<infinity>
      \<longrightarrow> previousNodes (relax ''A'' (init scenario4 ''A'') (''B'', 0)) ''B'' = Some (Some ''A'')"
    by auto
  moreover have d1: "distances (relax ''A'' (init scenario4 ''A'') (''B'', 0)) ''B'' = Some 0"
    by (simp add: relax_def Let_def distances_init keys_def scenario4_def proto_def
        js_add_exact zero_enat_def)
  ultimately have "previousNodes (relax ''A'' (init scenario4 ''A'') (''B'', 0)) ''B'' = Some (Some ''A'')"
    by simp
  with d0 d1 l0 l1 i show ?thesis by simp
qed

section \<open>Results\<close>

subsection \<open>Where a result comes from\<close>

lemma loop_body_Found:
  assumes "loop_body g e x st = Found st'"
  shows "st' = st" "element x = e" "e \<noteq> []" "distances st e \<noteq> Some \<infinity>"
  using assms
  by (cases rule: loop_body_cases [where x = x and st = st and e = e and g = g]; simp)+

lemma dijkstra_loop_run:
  assumes "loop_state g s e n st"
  shows "dijkstra_loop g s e st = Some None \<or>
    (\<exists>m st1 x rest. loop_state g s e m st1 \<and> dequeue (pq st1) = Some (x, rest) \<and>
       loop_body g e x (st1\<lparr>pq := rest\<rparr>) = Found (st1\<lparr>pq := rest\<rparr>) \<and>
       dijkstra_loop g s e st = reconstruct s e (st1\<lparr>pq := rest\<rparr>))"
  using assms
proof (induction g s e st arbitrary: n rule: dijkstra_loop.induct)
  case (1 g s e st)
  show ?case
  proof (cases "dequeue (pq st)")
    case None
    then show ?thesis by (subst dijkstra_loop.simps) simp
  next
    case (Some xr)
    obtain x rest where xr: "xr = (x, rest)" by (cases xr)
    from Some xr have deq: "dequeue (pq st) = Some (x, rest)" by simp
    show ?thesis
    proof (cases "loop_body g e x (st\<lparr>pq := rest\<rparr>)")
      case (Continue st')
      from "1.prems" deq Continue have "loop_state g s e (Suc n) st'"
        by (rule loop_state_step)
      from "1.IH" [OF Some xr [symmetric] Continue this]
      have "dijkstra_loop g s e st' = Some None \<or>
        (\<exists>m st1 x rest. loop_state g s e m st1 \<and> dequeue (pq st1) = Some (x, rest) \<and>
           loop_body g e x (st1\<lparr>pq := rest\<rparr>) = Found (st1\<lparr>pq := rest\<rparr>) \<and>
           dijkstra_loop g s e st' = reconstruct s e (st1\<lparr>pq := rest\<rparr>))" .
      moreover have "dijkstra_loop g s e st = dijkstra_loop g s e st'"
        using deq Continue by (subst dijkstra_loop.simps) simp
      ultimately show ?thesis by simp
    next
      case (Found st')
      then have st': "st' = st\<lparr>pq := rest\<rparr>" by (rule loop_body_Found)
      have "dijkstra_loop g s e st = reconstruct s e (st\<lparr>pq := rest\<rparr>)"
        using deq Found st' by (subst dijkstra_loop.simps) simp
      with "1.prems" deq Found st' show ?thesis by blast
    qed
  qed
qed

lemma dijkstra_result_from:
  assumes "dijkstra g s e = Some (Some r)"
  obtains n st x rest where "loop_state g s e n st" "dequeue (pq st) = Some (x, rest)"
    "loop_body g e x (st\<lparr>pq := rest\<rparr>) = Found (st\<lparr>pq := rest\<rparr>)"
    "reconstruct s e (st\<lparr>pq := rest\<rparr>) = Some (Some r)"
  using dijkstra_loop_run [OF loop_state_init, of g s e] assms
  unfolding dijkstra_def by auto

subsection \<open>The tables cover the keys\<close>

lemma inv_dom_relax:
  assumes "inv_dom g st"
  shows "inv_dom g (relax h st nb)"
proof (cases nb)
  case (Pair n w)
  show ?thesis
  proof (cases rule: relax_cases [of h st n w])
    case same
    with assms show ?thesis by (simp add: Pair)
  next
    case (upd dc dn)
    from upd(2) have "n \<in> dom (distances st)" by auto
    with assms have n: "n \<in> set (keys g) - {proto}" by (simp add: inv_dom_def)
    with assms have "insert n (dom (distances st)) = set (keys g) - {proto}"
      "insert n (dom (previousNodes st)) = set (keys g) - {proto}"
      by (auto simp: inv_dom_def)
    with assms show ?thesis
      unfolding Pair upd(4) inv_dom_def by simp
  qed
qed

lemma inv_dom_foldl: "inv_dom g st \<Longrightarrow> inv_dom g (foldl (relax h) st nbrs)"
  by (induction nbrs arbitrary: st) (simp_all add: inv_dom_relax)

lemma inv_dom_init: "inv_dom g (init g s)"
  by (auto simp: inv_dom_def queued_init distances_init previousNodes_init dom_def)

lemma inv_dom_dequeue:
  assumes "inv_dom g st" "pq st = x # rest"
  shows "inv_dom g (st\<lparr>pq := rest\<rparr>)" "element x \<in> set (keys g)"
  using assms by (auto simp: inv_dom_def queued_def)

lemma inv_dom_step:
  assumes "inv_dom g st" "dequeue (pq st) = Some (x, rest)"
    "loop_body g e x (st\<lparr>pq := rest\<rparr>) = Continue st'"
  shows "inv_dom g st'"
proof -
  from assms(2) have "pq st = x # rest" by (simp add: dequeue_Some)
  with assms(1) have d: "inv_dom g (st\<lparr>pq := rest\<rparr>)" by (rule inv_dom_dequeue)
  show ?thesis
    using assms(3) d
    by (cases rule: loop_body_cases [where x = x and st = "st\<lparr>pq := rest\<rparr>" and e = e and g = g])
      (auto simp: inv_dom_foldl)
qed

lemma inv_dom_loop_state: "loop_state g s e n st \<Longrightarrow> inv_dom g st"
  by (induction rule: loop_state.induct) (auto intro: inv_dom_init inv_dom_step)

text \<open>
  What happens to the entry of \<^verbatim>\<open>__proto__\<close> when that node is not the end node: the loop
  over its neighbours is entered, every comparison in it is false, and the engine goes
  round again with both tables as they were.
\<close>

lemma proto_entry_skipped:
  assumes wf: "wf_graph g" and ls: "loop_state g startNode endNode n st"
    and deq: "dequeue (pq st) = Some (x, rest)"
    and x: "element x = proto" and e: "endNode \<noteq> proto"
  shows "loop_body g endNode x (st\<lparr>pq := rest\<rparr>) = Continue (st\<lparr>pq := rest\<rparr>)"
proof -
  from wf ls have d: "distances (st\<lparr>pq := rest\<rparr>) proto = None"
    by (simp add: proto_entry_is_stale)
  from ls have "inv_dom g st" by (rule inv_dom_loop_state)
  moreover from deq have "pq st = x # rest" by (simp add: dequeue_Some)
  ultimately have "element x \<in> set (keys g)" by (rule inv_dom_dequeue)
  with x have "map_of g proto \<noteq> None"
    by (simp add: keys_def map_of_eq_None_iff)
  then obtain nbrs where "map_of g proto = Some nbrs" by auto
  moreover have "proto \<noteq> []" by (simp add: proto_def)
  moreover from d have "foldl (relax proto) (st\<lparr>pq := rest\<rparr>) nbrs = st\<lparr>pq := rest\<rparr>"
    by (rule foldl_relax_None)
  ultimately show ?thesis
    using d x e by (simp add: loop_body_def)
qed

subsection \<open>The shape of the reconstructed path\<close>

lemma walk_again_shape:
  assumes "walk_again P s cur acc = Some p"
  shows "\<exists>pre. p = pre @ acc \<and> (pre = [] \<or> cur = Some (Some (last pre)))"
proof (rule walk_again.raw_induct [where P = "\<lambda>P s cur acc p.
    \<exists>pre. p = pre @ acc \<and> (pre = [] \<or> cur = Some (Some (last pre)))", OF _ assms])
  fix walk_again' P s cur acc p
  assume IH: "\<And>P s cur acc p. walk_again' P s cur acc = Some p \<Longrightarrow>
      \<exists>pre. p = pre @ acc \<and> (pre = [] \<or> cur = Some (Some (last pre)))"
    and body: "(case cur of None \<Rightarrow> Some acc
      | Some None \<Rightarrow> Some acc
      | Some (Some c) \<Rightarrow>
          if c = s then Some (c # acc)
          else walk_again' P s (P c) (c # acc)) = Some p"
  show "\<exists>pre. p = pre @ acc \<and> (pre = [] \<or> cur = Some (Some (last pre)))"
  proof (cases cur)
    case None
    with body show ?thesis by auto
  next
    case (Some c')
    show ?thesis
    proof (cases c')
      case None
      with Some body show ?thesis by auto
    next
      case (Some c)
      note c = \<open>cur = Some c'\<close> this
      show ?thesis
      proof (cases "c = s")
        case True
        with c body have "p = c # acc" by simp
        then have "p = [c] @ acc \<and> ([c] = [] \<or> cur = Some (Some (last [c])))"
          using c by simp
        then show ?thesis by (rule exI)
      next
        case False
        with c body have "walk_again' P s (P c) (c # acc) = Some p" by simp
        from IH [OF this] obtain pre where "p = pre @ c # acc" by blast
        then have "p = (pre @ [c]) @ acc \<and> (pre @ [c] = [] \<or> cur = Some (Some (last (pre @ [c]))))"
          using c by simp
        then show ?thesis by (rule exI)
      qed
    qed
  qed
qed

lemma walk_back_shape:
  assumes "walk_back P s e tmp acc = Some y"
  shows "\<forall>p. y = Walked p \<longrightarrow> (\<exists>pre. p = pre @ acc \<and> (pre = [] \<or> tmp = Some (last pre)))"
proof (rule walk_back.raw_induct [where P = "\<lambda>P s e tmp acc y.
    \<forall>p. y = Walked p \<longrightarrow> (\<exists>pre. p = pre @ acc \<and> (pre = [] \<or> tmp = Some (last pre)))",
    OF _ assms])
  fix walk_back' P s e tmp acc y
  assume IH: "\<And>P s e tmp acc y. walk_back' P s e tmp acc = Some y \<Longrightarrow>
      \<forall>p. y = Walked p \<longrightarrow> (\<exists>pre. p = pre @ acc \<and> (pre = [] \<or> tmp = Some (last pre)))"
    and body: "(case tmp of None \<Rightarrow> Some (Walked acc)
      | Some t \<Rightarrow>
          (case P t of None \<Rightarrow> Some (Walked acc)
           | Some p \<Rightarrow>
               if t = s then Some (Walked (t # acc))
               else if (p = None \<or> p = Some []) \<and> s \<noteq> e then Some Broken
               else walk_back' P s e p (t # acc))) = Some y"
  show "\<forall>p. y = Walked p \<longrightarrow> (\<exists>pre. p = pre @ acc \<and> (pre = [] \<or> tmp = Some (last pre)))"
  proof (cases tmp)
    case None
    with body show ?thesis by auto
  next
    case (Some t)
    show ?thesis
    proof (cases "P t")
      case None
      with Some body show ?thesis by auto
    next
      case (Some q)
      note Pt = this
      show ?thesis
      proof (cases "t = s")
        case True
        with \<open>tmp = Some t\<close> Pt body have y: "y = Walked (t # acc)" by simp
        have "t # acc = [t] @ acc \<and> ([t] = [] \<or> tmp = Some (last [t]))"
          using \<open>tmp = Some t\<close> by simp
        then have "\<exists>pre. t # acc = pre @ acc \<and> (pre = [] \<or> tmp = Some (last pre))"
          by (rule exI)
        with y show ?thesis by simp
      next
        case False
        show ?thesis
        proof (cases "(q = None \<or> q = Some []) \<and> s \<noteq> e")
          case True
          with \<open>tmp = Some t\<close> Pt False body have "y = Broken" by auto
          then show ?thesis by simp
        next
          case False
          with \<open>tmp = Some t\<close> Pt \<open>t \<noteq> s\<close> body have "walk_back' P s e q (t # acc) = Some y"
            by auto
          from IH [OF this] have *:
            "\<forall>p. y = Walked p \<longrightarrow> (\<exists>pre. p = pre @ t # acc \<and> (pre = [] \<or> q = Some (last pre)))" .
          show ?thesis
          proof (intro allI impI)
            fix p assume "y = Walked p"
            with * obtain pre where "p = pre @ t # acc" by blast
            then have "p = (pre @ [t]) @ acc \<and> (pre @ [t] = [] \<or> tmp = Some (last (pre @ [t])))"
              using \<open>tmp = Some t\<close> by simp
            then show "\<exists>pre. p = pre @ acc \<and> (pre = [] \<or> tmp = Some (last pre))"
              by (rule exI)
          qed
        qed
      qed
    qed
  qed
qed

lemma first_Some: "first xs = Some x \<longleftrightarrow> xs \<noteq> [] \<and> hd xs = x"
  by (cases xs) (simp_all add: first_def)

lemma reconstruct_result:
  assumes "reconstruct s e st = Some (Some r)"
  shows "first (path r) = Some s" "last (path r) = e" "distance r = distances st e"
proof -
  from assms obtain w where w: "walk_back (previousNodes st) s e (Some e) [] = Some w"
    by (auto simp: reconstruct_def split: option.splits)
  with assms obtain path0 where w0: "w = Walked path0"
    by (cases w) (auto simp: reconstruct_def)
  from walk_back_shape [OF w] w0 obtain pre where
    "path0 = pre @ []" "pre = [] \<or> Some e = Some (last pre)" by blast
  then have p0: "path0 = [] \<or> last path0 = e"
    by auto
  define path1 where "path1 = (if first path0 \<noteq> Some s \<and> s = e then s # path0 else path0)"
  from p0 have p1: "path1 = [] \<or> last path1 = e"
    by (auto simp: path1_def)
  have "first (path r) = Some s \<and> last (path r) = e \<and> distance r = distances st e"
  proof (cases "first path1 = Some s")
    case True
    with assms w w0 have "r = \<lparr>path = path1, distance = distances st e\<rparr>"
      by (simp add: reconstruct_def path1_def Let_def)
    with True p1 show ?thesis by (auto simp: first_Some)
  next
    case False
    show ?thesis
    proof (cases "length path1 = 0 \<and> s = e")
      case True
      with False assms w w0 have "r = \<lparr>path = path1 @ [s], distance = distances st e\<rparr>"
        by (simp add: reconstruct_def path1_def Let_def split: if_splits)
      with True show ?thesis by (simp add: first_def)
    next
      case nolen: False
      from False nolen assms w w0 obtain rp where
        rp: "walk_again (previousNodes st) s (Some (Some e)) [] = Some rp"
          "first rp = Some s" "r = \<lparr>path = rp, distance = distances st e\<rparr>"
        by (auto simp: reconstruct_def path1_def Let_def split: if_splits option.splits)
      from walk_again_shape [OF rp(1)] obtain pre where
        "rp = pre @ []" "pre = [] \<or> Some (Some e) = Some (Some (last pre))" by blast
      then have "rp = [] \<or> last rp = e" by auto
      with rp show ?thesis by (auto simp: first_Some)
    qed
  qed
  then show "first (path r) = Some s" "last (path r) = e" "distance r = distances st e"
    by simp_all
qed

lemma result_shape:
  assumes "dijkstra g startNode endNode = Some (Some r)"
  shows "path r \<noteq> [] \<and> hd (path r) = startNode \<and> last (path r) = endNode \<and>
    distance r \<noteq> Some \<infinity> \<and> (endNode \<noteq> proto \<longrightarrow> (\<exists>d. distance r = Some (enat d)))"
proof -
  from assms obtain n st x rest where
    ls: "loop_state g startNode endNode n st" and deq: "dequeue (pq st) = Some (x, rest)"
    and found: "loop_body g endNode x (st\<lparr>pq := rest\<rparr>) = Found (st\<lparr>pq := rest\<rparr>)"
    and rec: "reconstruct startNode endNode (st\<lparr>pq := rest\<rparr>) = Some (Some r)"
    by (rule dijkstra_result_from)
  from ls have "inv_dom g st" by (rule inv_dom_loop_state)
  moreover from deq have pq: "pq st = x # rest" by (simp add: dequeue_Some)
  ultimately have dom: "element x \<noteq> proto \<longrightarrow> element x \<in> dom (distances st)"
    by (auto simp: inv_dom_def queued_def)
  from found have x: "element x = endNode" "distances st endNode \<noteq> Some \<infinity>"
    by (auto dest: loop_body_Found)
  from x(2) have "endNode \<noteq> proto \<longrightarrow> (\<exists>d. distances st endNode = Some (enat d))"
  proof (cases rule: finite_distance)
    case 1
    with dom x(1) show ?thesis by auto
  next
    case (2 d)
    then show ?thesis by simp
  qed
  with reconstruct_result [OF rec] x(2) show ?thesis
    by (simp add: first_Some)
qed

text \<open>
  C10. On the graph whose only node is named \<^verbatim>\<open>__proto__\<close>, with that node as start
  and end, \<^verbatim>\<open>dijkstra\<close> returns a result whose distance is not a number: the
  \<^verbatim>\<open>distances["__proto__"]\<close> of the return is the object \<^verbatim>\<open>Object.prototype\<close>. For
  every end node with another name the distance of a result is a finite number, and the
  path of every result is not empty, starts with the start node and ends with the end
  node (\<open>result_shape\<close>).
\<close>

theorem C10_distance_not_a_number:
  "dijkstra proto_graph ''__proto__'' ''__proto__''
     = Some (Some \<lparr>path = [''__proto__''], distance = None\<rparr>)"
  by code_simp

section \<open>No result\<close>

subsection \<open>Paths\<close>

lemma first_append: "p \<noteq> [] \<Longrightarrow> first (p @ q) = first p"
  by (cases p) (simp_all add: first_def)

lemma path_weight_Nil_iff: "path_weight g p \<noteq> None \<Longrightarrow> p \<noteq> []"
  by auto

lemma path_weight_snoc:
  "path_weight g p = Some a \<Longrightarrow> edge_weight g (last p) v = Some w \<Longrightarrow> v \<in> set (keys g) \<Longrightarrow>
     path_weight g (p @ [v]) = Some (a + w)"
proof (induction g p arbitrary: a rule: path_weight.induct)
  case (1 g)
  then show ?case by simp
next
  case (2 g u)
  then show ?case by (simp split: if_splits)
next
  case (3 g u u' rest)
  from "3.prems"(1) obtain c a' where c: "edge_weight g u u' = Some c"
    and a': "path_weight g (u' # rest) = Some a'" and a: "a = c + a'"
    by (auto split: option.splits)
  from "3.prems"(2) have "edge_weight g (last (u' # rest)) v = Some w" by simp
  with "3.IH" [OF c a'] "3.prems"(3)
  have "path_weight g ((u' # rest) @ [v]) = Some (a' + w)" by simp
  with c a show ?case by simp
qed

lemma is_path_snoc:
  assumes "is_path g s u p" "edge_weight g u v \<noteq> None" "v \<in> set (keys g)"
  shows "is_path g s v (p @ [v])"
proof -
  from assms(1) have p: "first p = Some s" "last p = u" "path_weight g p \<noteq> None"
    by (simp_all add: is_path_def)
  then have ne: "p \<noteq> []" by auto
  from p(3) obtain a where a: "path_weight g p = Some a" by auto
  from assms(2) p(2) obtain w where "edge_weight g (last p) v = Some w" by auto
  from path_weight_snoc [OF a this assms(3)]
  have "path_weight g (p @ [v]) = Some (a + w)" .
  with p(1) ne show ?thesis by (simp add: is_path_def first_append)
qed

lemma is_path_single: "s \<in> set (keys g) \<Longrightarrow> is_path g s s [s]"
  by (simp add: is_path_def first_def)

subsection \<open>Finite distances come from paths\<close>

lemma inv_conn_relax:
  assumes c: "inv_conn g s st" and d: "inv_dom g st"
    and h: "map_of g h = Some nbrs" and nb: "(n, w) \<in> set nbrs"
  shows "inv_conn g s (relax h st (n, w))"
proof (cases rule: relax_cases [of h st n w])
  case same
  with c show ?thesis by simp
next
  case (upd dc dn)
  show ?thesis
    unfolding upd(4) inv_conn_def
  proof (intro allI impI)
    fix v k
    assume v: "distances (st\<lparr>distances := (distances st)(n \<mapsto> js_add dc (enat w)),
        previousNodes := (previousNodes st)(n \<mapsto> Some h),
        pq := updatePriority (pq st) n (js_add dc (enat w))\<rparr>) v = Some (enat k)"
    show "s \<in> set (keys g) \<and> (\<exists>p. is_path g s v p)"
    proof (cases "v = n")
      case False
      with v have "distances st v = Some (enat k)" by simp
      with c show ?thesis unfolding inv_conn_def by blast
    next
      case True
      with v have "js_add dc (enat w) = enat k" by simp
      then obtain dh where "dc = enat dh" by (rule js_add_finite)
      with upd(1) c obtain p where s: "s \<in> set (keys g)" and p: "is_path g s h p"
        unfolding inv_conn_def by blast
      from upd(2) d have "n \<in> set (keys g)" by (auto simp: inv_dom_def)
      moreover from nb have "map_of nbrs n \<noteq> None"
        by (auto dest: weak_map_of_SomeI)
      with h have "edge_weight g h n \<noteq> None" by (simp add: edge_weight_def)
      ultimately have "is_path g s n (p @ [n])" using p by (intro is_path_snoc)
      with s True show ?thesis by blast
    qed
  qed
qed

lemma inv_conn_foldl:
  assumes "map_of g h = Some nbrs"
  shows "inv_conn g s st \<Longrightarrow> inv_dom g st \<Longrightarrow> set ns \<subseteq> set nbrs \<Longrightarrow>
    inv_conn g s (foldl (relax h) st ns)"
proof (induction ns arbitrary: st)
  case Nil
  then show ?case by simp
next
  case (Cons nb ns)
  obtain n w where nb: "nb = (n, w)" by (cases nb)
  with Cons.prems(3) have "(n, w) \<in> set nbrs" by simp
  with Cons.prems(1,2) assms have "inv_conn g s (relax h st nb)"
    unfolding nb by (intro inv_conn_relax)
  moreover from Cons.prems(2) have "inv_dom g (relax h st nb)" by (rule inv_dom_relax)
  moreover from Cons.prems(3) have "set ns \<subseteq> set nbrs" by simp
  ultimately have "inv_conn g s (foldl (relax h) (relax h st nb) ns)" by (rule Cons.IH)
  then show ?case by simp
qed

lemma inv_conn_init: "inv_conn g s (init g s)"
  by (auto simp: inv_conn_def distances_init is_path_single split: if_splits
      intro!: exI [of _ "[s]"])

lemma inv_conn_step:
  assumes c: "inv_conn g s st" and d: "inv_dom g st"
    and deq: "dequeue (pq st) = Some (x, rest)"
    and body: "loop_body g e x (st\<lparr>pq := rest\<rparr>) = Continue st'"
  shows "inv_conn g s st'"
proof -
  from c have c': "inv_conn g s (st\<lparr>pq := rest\<rparr>)" by (simp add: inv_conn_def)
  from deq have "pq st = x # rest" by (simp add: dequeue_Some)
  with d have d': "inv_dom g (st\<lparr>pq := rest\<rparr>)" by (rule inv_dom_dequeue)
  show ?thesis
  proof (cases rule: loop_body_cases [where x = x and st = "st\<lparr>pq := rest\<rparr>" and e = e and g = g])
    case skip
    with body c' show ?thesis by simp
  next
    case found
    with body show ?thesis by simp
  next
    case leaf
    with body c' show ?thesis by simp
  next
    case (relaxed nbrs)
    from relaxed(4) c' d' have "inv_conn g s (foldl (relax (element x)) (st\<lparr>pq := rest\<rparr>) nbrs)"
      by (rule inv_conn_foldl) simp
    with body relaxed show ?thesis by simp
  qed
qed

lemma inv_conn_loop_state: "loop_state g s e n st \<Longrightarrow> inv_conn g s st"
proof (induction rule: loop_state.induct)
  case loop_state_init
  show ?case by (rule inv_conn_init)
next
  case (loop_state_step n st x rest st')
  from loop_state_step.hyps(1) have "inv_dom g st" by (rule inv_dom_loop_state)
  with loop_state_step.IH show ?case
    using loop_state_step.hyps(2,3) by (rule inv_conn_step)
qed

lemma found_key:
  assumes ls: "loop_state g s e n st" and deq: "dequeue (pq st) = Some (x, rest)"
    and found: "loop_body g e x (st\<lparr>pq := rest\<rparr>) = Found (st\<lparr>pq := rest\<rparr>)"
  shows "e \<in> set (keys g)"
proof -
  from ls have d: "inv_dom g st" by (rule inv_dom_loop_state)
  from deq have pq: "pq st = x # rest" by (simp add: dequeue_Some)
  from found have "element x = e" by (auto dest: loop_body_Found)
  with d pq show ?thesis by (auto simp: inv_dom_def queued_def)
qed

lemma found_connected:
  assumes ls: "loop_state g s e n st" and deq: "dequeue (pq st) = Some (x, rest)"
    and found: "loop_body g e x (st\<lparr>pq := rest\<rparr>) = Found (st\<lparr>pq := rest\<rparr>)"
    and np: "e \<noteq> proto"
  shows "s \<in> set (keys g)" "\<exists>p. is_path g s e p"
proof -
  from ls have d: "inv_dom g st" by (rule inv_dom_loop_state)
  from found have x: "element x = e" "distances st e \<noteq> Some \<infinity>"
    by (auto dest: loop_body_Found)
  from ls deq found have "e \<in> set (keys g)" by (rule found_key)
  with d np have "e \<in> dom (distances st)" by (simp add: inv_dom_def)
  then obtain a where "distances st e = Some a" by auto
  with x(2) obtain k where "distances st e = Some (enat k)" by (cases a) auto
  moreover from ls have "inv_conn g s st" by (rule inv_conn_loop_state)
  ultimately show "s \<in> set (keys g)" "\<exists>p. is_path g s e p"
    unfolding inv_conn_def by blast+
qed

lemma reconstruct_no_predecessor:
  assumes "previousNodes st e = None" and "s \<noteq> e"
  shows "reconstruct s e st = Some None"
proof -
  from assms(1) have "walk_back (previousNodes st) s e (Some e) [] = Some (Walked [])"
    by (subst walk_back.simps) simp
  moreover from assms have "walk_again (previousNodes st) s (Some (Some e)) [] = Some [e]"
    by (subst walk_again.simps) simp
  ultimately show ?thesis
    using assms(2) by (simp add: reconstruct_def first_def)
qed

text \<open>
  C4. If the start node or the end node is not a key of the graph, or the two differ and
  no path of the graph leads from the start node to the end node, then \<^verbatim>\<open>dijkstra\<close>
  returns \<^verbatim>\<open>null\<close>. It returns: the function has no \<^verbatim>\<open>throw\<close>, and the value
  \<open>Some None\<close> of the model is the normal return of \<^verbatim>\<open>null\<close>.
\<close>

theorem C4_not_found:
  assumes "startNode \<notin> set (keys g) \<or> endNode \<notin> set (keys g) \<or>
    (startNode \<noteq> endNode \<and> \<not> (\<exists>p. is_path g startNode endNode p))"
  shows "dijkstra g startNode endNode = Some None"
proof -
  from dijkstra_loop_run [OF loop_state_init, of g startNode endNode]
  consider "dijkstra g startNode endNode = Some None"
    | n st x rest where "loop_state g startNode endNode n st"
        "dequeue (pq st) = Some (x, rest)"
        "loop_body g endNode x (st\<lparr>pq := rest\<rparr>) = Found (st\<lparr>pq := rest\<rparr>)"
        "dijkstra g startNode endNode = reconstruct startNode endNode (st\<lparr>pq := rest\<rparr>)"
    unfolding dijkstra_def by blast
  then show ?thesis
  proof cases
    case 1
    then show ?thesis .
  next
    case (2 n st x rest)
    from 2(1,2,3) have e: "endNode \<in> set (keys g)" by (rule found_key)
    show ?thesis
    proof (cases "endNode = proto")
      case True
      from 2(1) have "inv_dom g st" by (rule inv_dom_loop_state)
      with True have "previousNodes (st\<lparr>pq := rest\<rparr>) endNode = None"
        by (auto simp: inv_dom_def)
      moreover from assms e have "startNode \<noteq> endNode" by auto
      ultimately have "reconstruct startNode endNode (st\<lparr>pq := rest\<rparr>) = Some None"
        by (rule reconstruct_no_predecessor)
      with 2(4) show ?thesis by simp
    next
      case False
      with 2(1,2,3) have "startNode \<in> set (keys g)" "\<exists>p. is_path g startNode endNode p"
        by (rule found_connected)+
      with assms e show ?thesis by blast
    qed
  qed
qed

text \<open>
  The theorem on scenario 3 of the specification: from A to the isolated node C, and with
  a node Z that the graph does not have.
\<close>

lemma scenario3_paths_from_A:
  "path_weight scenario3 p \<noteq> None \<Longrightarrow> hd p \<in> {''A'', ''B''} \<Longrightarrow> last p \<in> {''A'', ''B''}"
proof (induction scenario3 p rule: path_weight.induct)
  case 1
  then show ?case by simp
next
  case (2 v)
  then show ?case by simp
next
  case (3 u v rest)
  from "3.prems"(1) obtain c where c: "edge_weight scenario3 u v = Some c"
    and r: "path_weight scenario3 (v # rest) \<noteq> None"
    by (auto split: option.splits)
  from c "3.prems"(2) have "v \<in> {''A'', ''B''}"
    by (auto simp: edge_weight_def scenario3_def split: if_splits)
  with "3.hyps" [OF c] r have "last (v # rest) \<in> {''A'', ''B''}" by simp
  then show ?case by simp
qed

lemma scenario3_disconnected: "\<not> (\<exists>p. is_path scenario3 ''A'' ''C'' p)"
proof
  assume "\<exists>p. is_path scenario3 ''A'' ''C'' p"
  then obtain p where p: "first p = Some ''A''" "last p = ''C''" "path_weight scenario3 p \<noteq> None"
    by (auto simp: is_path_def)
  from p(1) have "hd p \<in> {''A'', ''B''}" by (simp add: first_Some)
  with p(3) have "last p \<in> {''A'', ''B''}" by (rule scenario3_paths_from_A)
  with p(2) show False by simp
qed

theorem C4_not_found_witness:
  "''A'' \<noteq> ''C'' \<and> \<not> (\<exists>p. is_path scenario3 ''A'' ''C'' p) \<and>
   dijkstra scenario3 ''A'' ''C'' = Some None \<and>
   ''Z'' \<notin> set (keys scenario3) \<and>
   dijkstra scenario3 ''Z'' ''A'' = Some None \<and>
   dijkstra scenario3 ''A'' ''Z'' = Some None"
proof -
  have z: "''Z'' \<notin> set (keys scenario3)" by (simp add: keys_def scenario3_def)
  have "dijkstra scenario3 ''A'' ''C'' = Some None"
    using scenario3_disconnected by (intro C4_not_found) simp
  moreover have "dijkstra scenario3 ''Z'' ''A'' = Some None"
    using z by (intro C4_not_found) simp
  moreover have "dijkstra scenario3 ''A'' ''Z'' = Some None"
    using z by (intro C4_not_found) simp
  ultimately show ?thesis using z scenario3_disconnected by simp
qed

section \<open>Start equal to end\<close>

lemma init_head:
  assumes "s \<in> set (keys g)"
  obtains rest where "pq (init g s) = \<lparr>element = s, priority = 0\<rparr> # rest"
proof -
  let ?mk = "\<lambda>n. \<lparr>element = n, priority = (if n = s then 0 else \<infinity>)\<rparr>"
  from assms have in_q: "?mk s \<in> set (pq (init g s))"
    unfolding set_pq_init by (rule imageI)
  then obtain x rest where q: "pq (init g s) = x # rest" by (cases "pq (init g s)") auto
  have "x \<in> set (pq (init g s))" by (simp add: q)
  then obtain n where n: "x = ?mk n" by (auto simp: set_pq_init)
  have "priority x \<le> priority (?mk s)"
    using in_q sorted_pq_init [of g s] by (auto simp: q)
  then have "priority x = 0" by simp
  with n have "n = s" by (simp split: if_splits)
  with n q that show ?thesis by simp
qed

lemma reconstruct_start:
  assumes "previousNodes st s \<noteq> None"
  shows "reconstruct s s st = Some (Some \<lparr>path = [s], distance = distances st s\<rparr>)"
proof -
  from assms have "walk_back (previousNodes st) s s (Some s) [] = Some (Walked [s])"
    by (subst walk_back.simps) auto
  then show ?thesis by (simp add: reconstruct_def first_def)
qed

text \<open>
  C3, as the code has it. For every node \<open>s\<close> that is a key of the graph and is named
  neither by the empty string nor \<^verbatim>\<open>__proto__\<close>, \<^verbatim>\<open>dijkstra(graph, s, s)\<close> returns the
  path [s] with distance 0.
\<close>

theorem C3_start_is_end:
  assumes "s \<in> set (keys g)" and "s \<noteq> []" and "s \<noteq> ''__proto__''"
  shows "dijkstra g s s = Some (Some \<lparr>path = [s], distance = Some 0\<rparr>)"
proof -
  from assms(1) obtain rest where q: "pq (init g s) = \<lparr>element = s, priority = 0\<rparr> # rest"
    by (rule init_head)
  let ?st = "init g s\<lparr>pq := rest\<rparr>"
  from assms(3) have np: "s \<noteq> proto" by (simp add: proto_def)
  from assms(1) np have d: "distances ?st s = Some 0" and p: "previousNodes ?st s = Some None"
    by (simp_all add: distances_init previousNodes_init)
  from d assms(2) have "loop_body g s \<lparr>element = s, priority = 0\<rparr> ?st = Found ?st"
    by (simp add: loop_body_def)
  with q have "dijkstra_loop g s s (init g s) = reconstruct s s ?st"
    by (subst dijkstra_loop.simps) (simp add: dequeue_def)
  also from p have "\<dots> = Some (Some \<lparr>path = [s], distance = distances ?st s\<rparr>)"
    by (intro reconstruct_start) simp
  finally show ?thesis using assms(1) np by (simp add: dijkstra_def distances_init)
qed

text \<open>
  C3 as stated fails for the node whose name is the empty string: the guard
  \<^verbatim>\<open>!currentNode\<close> of line 32 holds of it, the node is skipped when it is extracted, and
  the function returns \<^verbatim>\<open>null\<close>. It fails for the node named \<^verbatim>\<open>__proto__\<close> as well,
  where the distance of the result is not the number 0.
\<close>

theorem C3_excluded_names:
  "[] \<in> set (keys empty_name_graph) \<and> dijkstra empty_name_graph [] [] = Some None \<and>
   ''__proto__'' \<in> set (keys proto_graph) \<and>
   dijkstra proto_graph ''__proto__'' ''__proto__''
     = Some (Some \<lparr>path = [''__proto__''], distance = None\<rparr>)"
proof -
  have "[] \<in> set (keys empty_name_graph)" "''__proto__'' \<in> set (keys proto_graph)"
    by (simp_all add: keys_def empty_name_graph_def proto_graph_def)
  moreover have "dijkstra empty_name_graph [] [] = Some None"
    by code_simp
  moreover have "dijkstra proto_graph ''__proto__'' ''__proto__''
     = Some (Some \<lparr>path = [''__proto__''], distance = None\<rparr>)"
    by code_simp
  ultimately show ?thesis by simp
qed

text \<open>The theorem on scenario 2 of the specification, the graph \<^verbatim>\<open>{X: {}}\<close>.\<close>

theorem C3_start_is_end_witness:
  "''X'' \<in> set (keys scenario2) \<and> ''X'' \<noteq> [] \<and> ''X'' \<noteq> ''__proto__'' \<and>
   dijkstra scenario2 ''X'' ''X'' = Some (Some \<lparr>path = [''X''], distance = Some 0\<rparr>)"
proof -
  have k: "''X'' \<in> set (keys scenario2)" by (simp add: keys_def scenario2_def)
  have n: "''X'' \<noteq> []" "''X'' \<noteq> ''__proto__''" by simp_all
  from C3_start_is_end [OF k n] k n show ?thesis by simp
qed

section \<open>The shortest path\<close>

subsection \<open>The tree of predecessors\<close>

lemma wf_graph_edge:
  assumes "wf_graph g" "map_of g h = Some nbrs" "(n, w) \<in> set nbrs"
  shows "edge_weight g h n = Some w"
proof -
  from assms(2) have "(h, nbrs) \<in> set g" by (rule map_of_SomeD)
  with assms(1) have "distinct (map fst nbrs)"
    by (auto simp: wf_graph_def list_all_iff)
  with assms(3) have "map_of nbrs n = Some w" by (simp add: map_of_is_SomeI)
  with assms(2) show ?thesis by (simp add: edge_weight_def)
qed

lemma inv_tree_relax:
  assumes t: "inv_tree g s st" and r: "inv_relaxing h dh st" and d: "inv_dom g st"
    and wf: "wf_graph g" and h: "map_of g h = Some nbrs" "(n, w) \<in> set nbrs" "h \<noteq> []"
    and ex: "dh + w \<le> 2 ^ 53"
  shows "inv_tree g s (relax h st (n, w))"
proof (cases rule: relax_cases [of h st n w])
  case same
  with t show ?thesis by simp
next
  case (upd dc dn)
  from r upd(1) have dc: "dc = enat dh" by (simp add: inv_relaxing_def)
  from ex have nd: "js_add (enat dh) (enat w) = enat (dh + w)" by (rule js_add_exact)
  from r have dh: "distances st h = Some (enat dh)" and hq: "h \<notin> queued st"
    by (simp_all add: inv_relaxing_def)
  from upd dc have nq: "n \<in> queued st" using relax_updates_queued [OF r] by simp
  with hq have nh: "n \<noteq> h" by auto
  have ns: "n \<noteq> s"
  proof
    assume "n = s"
    moreover from upd(2) d have "n \<in> set (keys g)" by (auto simp: inv_dom_def)
    ultimately have "distances st n = Some 0" using t by (simp add: inv_tree_def)
    with upd(2,3) show False by simp
  qed
  have ew: "edge_weight g h n = Some w" using wf h(1,2) by (rule wf_graph_edge)
  let ?st = "st\<lparr>distances := (distances st)(n \<mapsto> js_add dc (enat w)),
       previousNodes := (previousNodes st)(n \<mapsto> Some h),
       pq := updatePriority (pq st) n (js_add dc (enat w))\<rparr>"
  have q: "queued ?st = queued st" by simp
  have t1: "s \<in> set (keys g) \<longrightarrow> distances ?st s = Some 0"
    using t ns by (auto simp: inv_tree_def)
  have t2: "\<forall>v u. previousNodes ?st v = Some (Some u) \<longrightarrow>
        v \<noteq> s \<and> u \<noteq> [] \<and> u \<notin> queued ?st \<and>
        (\<exists>du w. distances ?st u = Some (enat du) \<and> edge_weight g u v = Some w \<and>
           distances ?st v = Some (enat (du + w)))"
  proof (intro allI impI)
    fix v u
    assume p: "previousNodes ?st v = Some (Some u)"
    show "v \<noteq> s \<and> u \<noteq> [] \<and> u \<notin> queued ?st \<and>
        (\<exists>du w. distances ?st u = Some (enat du) \<and> edge_weight g u v = Some w \<and>
           distances ?st v = Some (enat (du + w)))"
    proof (cases "v = n")
      case True
      with p have u: "u = h" by simp
      have "distances ?st h = Some (enat dh)" using nh dh by simp
      moreover have "distances ?st n = Some (enat (dh + w))" by (simp add: dc nd)
      ultimately show ?thesis using True u h(3) hq ew ns by (simp only: q) blast
    next
      case False
      with p have p': "previousNodes st v = Some (Some u)" by simp
      with t have old: "v \<noteq> s" "u \<noteq> []" "u \<notin> queued st"
        "\<exists>du w. distances st u = Some (enat du) \<and> edge_weight g u v = Some w \<and>
           distances st v = Some (enat (du + w))"
        unfolding inv_tree_def by blast+
      from old(3) nq have "u \<noteq> n" by auto
      with False old show ?thesis by simp
    qed
  qed
  have t3: "\<forall>v d. distances ?st v = Some (enat d) \<longrightarrow>
        v = s \<or> (\<exists>u. previousNodes ?st v = Some (Some u))"
  proof (intro allI impI)
    fix v d
    assume d: "distances ?st v = Some (enat d)"
    show "v = s \<or> (\<exists>u. previousNodes ?st v = Some (Some u))"
    proof (cases "v = n")
      case True
      then show ?thesis by simp
    next
      case False
      with d have "distances st v = Some (enat d)" by simp
      with t have "v = s \<or> (\<exists>u. previousNodes st v = Some (Some u))"
        unfolding inv_tree_def by blast
      with False show ?thesis by simp
    qed
  qed
  from t1 t2 t3 show ?thesis unfolding upd(4) inv_tree_def by blast
qed

lemma inv_tree_foldl:
  assumes wf: "wf_graph g" and h: "map_of g h = Some nbrs" "h \<noteq> []"
    and ex: "\<And>n w. (n, w) \<in> set nbrs \<Longrightarrow> dh + w \<le> 2 ^ 53"
  shows "inv_tree g s st \<Longrightarrow> inv_relaxing h dh st \<Longrightarrow> inv_dom g st \<Longrightarrow> set ns \<subseteq> set nbrs \<Longrightarrow>
    inv_tree g s (foldl (relax h) st ns)"
proof (induction ns arbitrary: st)
  case Nil
  then show ?case by simp
next
  case (Cons nb ns)
  obtain n w where nb: "nb = (n, w)" by (cases nb)
  with Cons.prems(4) have in_nbrs: "(n, w) \<in> set nbrs" by simp
  then have "dh + w \<le> 2 ^ 53" by (rule ex)
  with Cons.prems(1,2,3) wf h in_nbrs have "inv_tree g s (relax h st nb)"
    unfolding nb by (intro inv_tree_relax)
  moreover from Cons.prems(2) have "inv_relaxing h dh (relax h st nb)"
    unfolding nb by (rule inv_relaxing_relax)
  moreover from Cons.prems(3) have "inv_dom g (relax h st nb)" by (rule inv_dom_relax)
  moreover from Cons.prems(4) have "set ns \<subseteq> set nbrs" by simp
  ultimately have "inv_tree g s (foldl (relax h) (relax h st nb) ns)" by (rule Cons.IH)
  then show ?case by simp
qed

lemma queued_dequeue_subset: "pq st = x # rest \<Longrightarrow> queued (st\<lparr>pq := rest\<rparr>) \<subseteq> queued st"
  by (auto simp: queued_def)

lemma inv_tree_dequeue:
  assumes "inv_tree g s st" "pq st = x # rest"
  shows "inv_tree g s (st\<lparr>pq := rest\<rparr>)"
proof -
  from assms(2) have sub: "queued (st\<lparr>pq := rest\<rparr>) \<subseteq> queued st"
    by (rule queued_dequeue_subset)
  have "\<forall>v u. previousNodes st v = Some (Some u) \<longrightarrow>
        v \<noteq> s \<and> u \<noteq> [] \<and> u \<notin> queued (st\<lparr>pq := rest\<rparr>) \<and>
        (\<exists>du w. distances st u = Some (enat du) \<and> edge_weight g u v = Some w \<and>
           distances st v = Some (enat (du + w)))"
  proof (intro allI impI)
    fix v u
    assume "previousNodes st v = Some (Some u)"
    with assms(1) have "v \<noteq> s" "u \<noteq> []" "u \<notin> queued st"
      "\<exists>du w. distances st u = Some (enat du) \<and> edge_weight g u v = Some w \<and>
           distances st v = Some (enat (du + w))"
      unfolding inv_tree_def by blast+
    with sub show "v \<noteq> s \<and> u \<noteq> [] \<and> u \<notin> queued (st\<lparr>pq := rest\<rparr>) \<and>
        (\<exists>du w. distances st u = Some (enat du) \<and> edge_weight g u v = Some w \<and>
           distances st v = Some (enat (du + w)))"
      by blast
  qed
  with assms(1) show ?thesis by (simp add: inv_tree_def)
qed

lemma inv_tree_init: "proto \<notin> set (keys g) \<Longrightarrow> inv_tree g s (init g s)"
  by (auto simp: inv_tree_def distances_init previousNodes_init)

subsection \<open>Relaxed edges\<close>

lemma inv_edges_but_relax:
  assumes e: "inv_edges_but g h st" and r: "inv_relaxing h dh st"
  shows "inv_edges_but g h (relax h st (n, w))"
proof (cases rule: relax_cases [of h st n w])
  case same
  with e show ?thesis by simp
next
  case (upd dc dn)
  from r upd(1) have dc: "dc = enat dh" by (simp add: inv_relaxing_def)
  from upd dc have nq: "n \<in> queued st" using relax_updates_queued [OF r] by simp
  show ?thesis
    unfolding upd(4) inv_edges_but_def
  proof (intro allI impI)
    fix u du v c
    let ?st = "st\<lparr>distances := (distances st)(n \<mapsto> js_add dc (enat w)),
       previousNodes := (previousNodes st)(n \<mapsto> Some h),
       pq := updatePriority (pq st) n (js_add dc (enat w))\<rparr>"
    assume u: "u \<noteq> h" "u \<notin> queued ?st" "distances ?st u = Some (enat du)"
      and c: "edge_weight g u v = Some c" "v \<in> set (keys g)"
    from u(2) have uq: "u \<notin> queued st" by simp
    with nq have "u \<noteq> n" by auto
    with u(3) have "distances st u = Some (enat du)" by simp
    with e u(1) uq c obtain dv where dv: "distances st v = Some dv" "dv \<le> enat (du + c)"
      unfolding inv_edges_but_def by blast
    show "\<exists>dv. distances ?st v = Some dv \<and> dv \<le> enat (du + c)"
    proof (cases "v = n")
      case True
      with dv upd(2) have "dn = dv" by simp
      with upd(3) dv(2) have "js_add dc (enat w) \<le> enat (du + c)" by simp
      with True show ?thesis by simp
    next
      case False
      with dv show ?thesis by simp
    qed
  qed
qed

lemma inv_edges_but_foldl:
  "inv_edges_but g h st \<Longrightarrow> inv_relaxing h dh st \<Longrightarrow> inv_edges_but g h (foldl (relax h) st ns)"
proof (induction ns arbitrary: st)
  case Nil
  then show ?case by simp
next
  case (Cons nb ns)
  obtain n w where nb: "nb = (n, w)" by (cases nb)
  from Cons.prems have "inv_edges_but g h (relax h st nb)" "inv_relaxing h dh (relax h st nb)"
    unfolding nb by (simp_all add: inv_edges_but_relax inv_relaxing_relax)
  then show ?case by (simp add: Cons.IH)
qed

lemma relax_target:
  assumes "distances st h = Some (enat dh)" "distances st v = Some dn" "dh + w \<le> 2 ^ 53"
  shows "\<exists>dv. distances (relax h st (v, w)) v = Some dv \<and> dv \<le> enat (dh + w)"
  using assms by (auto simp: relax_def Let_def not_less js_add_exact)

lemma improves_le:
  assumes "improves st st'" "distances st v = Some d" "d \<le> b"
  shows "\<exists>d'. distances st' v = Some d' \<and> d' \<le> b"
proof -
  from assms(1) consider "distances st' v = distances st v"
    | d0 d' where "distances st v = Some d0" "distances st' v = Some d'" "d' < d0"
    unfolding improves_def by blast
  then show ?thesis
  proof cases
    case 1
    with assms(2,3) show ?thesis by simp
  next
    case (2 d0 d')
    with assms(2,3) have "d' \<le> b" by simp
    with 2 show ?thesis by simp
  qed
qed

lemma foldl_relaxes:
  assumes np: "v \<noteq> proto" and ex: "dh + w \<le> 2 ^ 53"
  shows "inv_relaxing h dh st \<Longrightarrow> inv_dom g st \<Longrightarrow> (v, w) \<in> set ns \<Longrightarrow> v \<in> set (keys g) \<Longrightarrow>
     \<exists>dv. distances (foldl (relax h) st ns) v = Some dv \<and> dv \<le> enat (dh + w)"
proof (induction ns arbitrary: st)
  case Nil
  then show ?case by simp
next
  case (Cons nb ns)
  have r1: "inv_relaxing h dh (relax h st nb)"
    using Cons.prems(1) by (cases nb) (simp add: inv_relaxing_relax)
  have d1: "inv_dom g (relax h st nb)" using Cons.prems(2) by (rule inv_dom_relax)
  show ?case
  proof (cases "(v, w) \<in> set ns")
    case True
    with r1 d1 Cons.prems(4) show ?thesis by (simp add: Cons.IH)
  next
    case False
    with Cons.prems(3) have nb: "nb = (v, w)" by simp
    from Cons.prems(1) have "distances st h = Some (enat dh)" by (simp add: inv_relaxing_def)
    moreover from Cons.prems(2,4) np have "v \<in> dom (distances st)"
      by (simp add: inv_dom_def)
    then obtain dn where "distances st v = Some dn" by auto
    ultimately obtain dv where dv: "distances (relax h st (v, w)) v = Some dv" "dv \<le> enat (dh + w)"
      using relax_target ex by blast
    have "improves (relax h st (v, w)) (foldl (relax h) (relax h st (v, w)) ns)"
      by (rule improves_foldl_relax)
    from improves_le [OF this dv] show ?thesis by (simp add: nb)
  qed
qed

lemma inv_edges_init: "inv_edges g (init g s)"
  by (auto simp: inv_edges_def queued_init distances_init split: if_splits)

lemma inv_edges_fill:
  assumes "inv_edges_but g h st"
    and "\<And>du v w. distances st h = Some (enat du) \<Longrightarrow> edge_weight g h v = Some w \<Longrightarrow>
      v \<in> set (keys g) \<Longrightarrow> \<exists>dv. distances st v = Some dv \<and> dv \<le> enat (du + w)"
  shows "inv_edges g st"
  unfolding inv_edges_def
proof (intro allI impI)
  fix u du v w
  assume "u \<notin> queued st" "distances st u = Some (enat du)" "edge_weight g u v = Some w"
    "v \<in> set (keys g)"
  with assms show "\<exists>dv. distances st v = Some dv \<and> dv \<le> enat (du + w)"
    unfolding inv_edges_but_def by (cases "u = h") blast+
qed

lemma inv_edges_dequeue:
  assumes "inv_edges g st" "pq st = x # rest" "distinct (map element (pq st))"
  shows "inv_edges_but g (element x) (st\<lparr>pq := rest\<rparr>)"
  unfolding inv_edges_but_def
proof (intro allI impI)
  fix u du v w
  assume u: "u \<noteq> element x" "u \<notin> queued (st\<lparr>pq := rest\<rparr>)"
    "distances (st\<lparr>pq := rest\<rparr>) u = Some (enat du)"
    and e: "edge_weight g u v = Some w" "v \<in> set (keys g)"
  from assms(2,3) have "queued (st\<lparr>pq := rest\<rparr>) = queued st - {element x}"
    by (rule queued_Cons)
  with u(1,2) have "u \<notin> queued st" by simp
  with assms(1) u(3) e show "\<exists>dv. distances (st\<lparr>pq := rest\<rparr>) v = Some dv \<and> dv \<le> enat (du + w)"
    unfolding inv_edges_def by simp
qed

subsection \<open>One iteration keeps all of it\<close>

lemma inv_correct_init:
  "distinct (keys g) \<Longrightarrow> proto \<notin> set (keys g) \<Longrightarrow> inv_correct g s (init g s)"
  by (simp add: inv_correct_def inv_loop_init inv_dom_init inv_tree_init inv_edges_init)

lemma inv_correct_step:
  assumes inv: "inv_correct g s st" and wf: "wf_graph g" and ne: "[] \<notin> set (keys g)"
    and deq: "dequeue (pq st) = Some (x, rest)"
    and body: "loop_body g e x (st\<lparr>pq := rest\<rparr>) = Continue st'"
    and ex: "\<And>dh nbrs n w. distances st (element x) = Some (enat dh) \<Longrightarrow>
      map_of g (element x) = Some nbrs \<Longrightarrow> (n, w) \<in> set nbrs \<Longrightarrow> dh + w \<le> 2 ^ 53"
  shows "inv_correct g s st'"
proof -
  from inv have l: "inv_loop st" and d: "inv_dom g st" and t: "inv_tree g s st"
    and ed: "inv_edges g st" and np: "proto \<notin> set (keys g)"
    by (simp_all add: inv_correct_def)
  from d np have npk: "\<And>v. v \<in> set (keys g) \<Longrightarrow> v \<in> dom (distances st)"
    by (auto simp: inv_dom_def)
  from l have q: "inv_queue st" and sq: "inv_settled st" by (simp_all add: inv_loop_def)
  from deq have pq: "pq st = x # rest" by (simp add: dequeue_Some)
  let ?h = "element x" and ?st = "st\<lparr>pq := rest\<rparr>"
  from l deq body have l': "inv_loop st'" by (rule inv_loop_step)
  from d deq body have d': "inv_dom g st'" by (rule inv_dom_step)
  from d pq have d1: "inv_dom g ?st" and hk: "?h \<in> set (keys g)"
    by (rule inv_dom_dequeue)+
  from hk ne have hne: "?h \<noteq> []" by auto
  from t pq have t1: "inv_tree g s ?st" by (rule inv_tree_dequeue)
  from q have "distinct (map element (pq st))" by (simp add: inv_queue_def)
  with ed pq have e1: "inv_edges_but g ?h ?st" by (rule inv_edges_dequeue)
  have "inv_tree g s st' \<and> inv_edges g st'"
  proof (cases rule: loop_body_cases [where x = x and st = ?st and e = e and g = g])
    case skip
    with hne have inf: "distances st ?h = Some \<infinity>" by simp
    from skip(2) body have st': "st' = ?st" by simp
    from e1 have "inv_edges g ?st"
      by (rule inv_edges_fill) (simp add: inf)
    with t1 st' show ?thesis by simp
  next
    case found
    with body show ?thesis by simp
  next
    case leaf
    from hk have "map_of g ?h \<noteq> None"
      by (simp add: keys_def map_of_eq_None_iff)
    with leaf(4) show ?thesis by simp
  next
    case (relaxed nbrs)
    from npk [OF hk] obtain a where "distances st ?h = Some a" by auto
    moreover from relaxed(2) have "distances st ?h \<noteq> Some \<infinity>" by simp
    ultimately obtain dh where dh1: "distances st ?h = Some (enat dh)"
      by (cases a) auto
    with q sq pq have dh2: "inv_relaxing ?h dh ?st"
      by (rule inv_relaxing_start)
    note dh = dh1 dh2
    have exn: "dh + w \<le> 2 ^ 53" if "(n, w) \<in> set nbrs" for n w
      using dh1 relaxed(4) that by (rule ex)
    let ?stf = "foldl (relax ?h) ?st nbrs"
    from relaxed(5) body have st': "st' = ?stf" by simp
    have "inv_tree g s ?stf"
    proof (rule inv_tree_foldl [OF wf relaxed(4) hne _ t1 dh(2) d1 subset_refl])
      fix n w
      assume "(n, w) \<in> set nbrs"
      then show "dh + w \<le> 2 ^ 53" by (rule exn)
    qed
    moreover have "inv_edges g ?stf"
    proof (rule inv_edges_fill)
      from e1 dh(2) show "inv_edges_but g ?h ?stf" by (rule inv_edges_but_foldl)
    next
      fix du v w
      assume du: "distances ?stf ?h = Some (enat du)" and ew: "edge_weight g ?h v = Some w"
        and v: "v \<in> set (keys g)"
      from dh(2) have "inv_relaxing ?h dh ?stf" by (rule inv_relaxing_foldl)
      with du have dudh: "du = dh" by (simp add: inv_relaxing_def)
      from ew relaxed(4) have in_nbrs: "(v, w) \<in> set nbrs"
        by (auto simp: edge_weight_def dest: map_of_SomeD)
      from v np have "v \<noteq> proto" by auto
      moreover from in_nbrs have "dh + w \<le> 2 ^ 53" by (rule exn)
      ultimately have "\<exists>dv. distances ?stf v = Some dv \<and> dv \<le> enat (dh + w)"
        using dh(2) d1 in_nbrs v by (rule foldl_relaxes)
      with dudh show "\<exists>dv. distances ?stf v = Some dv \<and> dv \<le> enat (du + w)" by simp
    qed
    ultimately show ?thesis by (simp add: st')
  qed
  with l' d' np show ?thesis by (simp add: inv_correct_def)
qed

subsection \<open>The sums are exact\<close>

lemma fold_max_ge: "a \<le> fold max xs (a::nat)" "x \<in> set xs \<Longrightarrow> x \<le> fold max xs a"
proof (induction xs arbitrary: a)
  case Nil
  {
    case 1 show ?case by simp
  next
    case 2 then show ?case by simp
  }
next
  case (Cons y ys)
  {
    case 1
    have "a \<le> max y a" by simp
    also have "\<dots> \<le> fold max ys (max y a)" by (rule Cons.IH(1))
    finally show ?case by simp
  next
    case 2
    show ?case
    proof (cases "x = y")
      case True
      have "x \<le> max y a" using True by simp
      also have "\<dots> \<le> fold max ys (max y a)" by (rule Cons.IH(1))
      finally show ?thesis by simp
    next
      case False
      with 2 have "x \<in> set ys" by simp
      then show ?thesis by (simp add: Cons.IH(2))
    qed
  }
qed

lemma weight_le_max:
  assumes "map_of g h = Some nbrs" "(n, w) \<in> set nbrs"
  shows "w \<le> max_weight g"
proof -
  from assms(1) have "(h, nbrs) \<in> set g" by (rule map_of_SomeD)
  with assms(2) have "w \<in> set (weights g)"
    by (force simp: weights_def)
  then show ?thesis unfolding max_weight_def by (rule fold_max_ge)
qed

lemma inv_bound_mono: "inv_bound b st \<Longrightarrow> b \<le> c \<Longrightarrow> inv_bound c st"
  unfolding inv_bound_def by (meson order_trans)

lemma inv_bound_relax:
  assumes r: "inv_relaxing h dh st" and b: "inv_bound b st"
    and le: "dh + w \<le> b" "b \<le> 2 ^ 53"
  shows "inv_bound b (relax h st (n, w))"
proof (cases rule: relax_cases [of h st n w])
  case same
  with b show ?thesis by simp
next
  case (upd dc dn)
  from r upd(1) have dc: "dc = enat dh" by (simp add: inv_relaxing_def)
  from le have "js_add (enat dh) (enat w) = enat (dh + w)" by (intro js_add_exact) simp
  with b le(1) show ?thesis
    unfolding upd(4) dc inv_bound_def by auto
qed

lemma inv_bound_foldl:
  assumes "b \<le> 2 ^ 53" and "\<And>n w. (n, w) \<in> set nbrs \<Longrightarrow> dh + w \<le> b"
  shows "inv_relaxing h dh st \<Longrightarrow> inv_bound b st \<Longrightarrow> set ns \<subseteq> set nbrs \<Longrightarrow>
    inv_bound b (foldl (relax h) st ns)"
proof (induction ns arbitrary: st)
  case Nil
  then show ?case by simp
next
  case (Cons nb ns)
  obtain n w where nb: "nb = (n, w)" by (cases nb)
  with Cons.prems(3) have "(n, w) \<in> set nbrs" by simp
  then have "dh + w \<le> b" by (rule assms(2))
  with Cons.prems(1,2) have "inv_bound b (relax h st nb)"
    unfolding nb using assms(1) by (rule inv_bound_relax)
  moreover from Cons.prems(1) have "inv_relaxing h dh (relax h st nb)"
    unfolding nb by (rule inv_relaxing_relax)
  moreover from Cons.prems(3) have "set ns \<subseteq> set nbrs" by simp
  ultimately have "inv_bound b (foldl (relax h) (relax h st nb) ns)"
    by (intro Cons.IH)
  then show ?case by simp
qed

lemma inv_bound_step:
  assumes l: "inv_loop st" and b: "inv_bound b st"
    and deq: "dequeue (pq st) = Some (x, rest)"
    and body: "loop_body g e x (st\<lparr>pq := rest\<rparr>) = Continue st'"
    and le: "b + max_weight g \<le> 2 ^ 53"
  shows "inv_bound (b + max_weight g) st'"
proof -
  from deq have pq: "pq st = x # rest" by (simp add: dequeue_Some)
  from l have q: "inv_queue st" and sq: "inv_settled st" by (simp_all add: inv_loop_def)
  let ?h = "element x" and ?st = "st\<lparr>pq := rest\<rparr>" and ?b = "b + max_weight g"
  from b have b1: "inv_bound ?b ?st" by (simp add: inv_bound_def trans_le_add1)
  show ?thesis
  proof (cases rule: loop_body_cases [where x = x and st = ?st and e = e and g = g])
    case skip
    with body b1 show ?thesis by simp
  next
    case found
    with body show ?thesis by simp
  next
    case leaf
    with body b1 show ?thesis by simp
  next
    case (relaxed nbrs)
    from relaxed(2) have "distances st ?h \<noteq> Some \<infinity>" by simp
    then have "inv_bound ?b (foldl (relax ?h) ?st nbrs)"
    proof (cases rule: finite_distance)
      case 1
      then have "foldl (relax ?h) ?st nbrs = ?st"
        by (intro foldl_relax_None) simp
      with b1 show ?thesis by simp
    next
      case (2 dh)
      with q sq pq have r: "inv_relaxing ?h dh ?st" by (rule inv_relaxing_start)
      from b 2 have dhb: "dh \<le> b" by (simp add: inv_bound_def)
      show ?thesis
      proof (rule inv_bound_foldl [OF le _ r b1 subset_refl])
        fix n w
        assume "(n, w) \<in> set nbrs"
        with relaxed(4) have "w \<le> max_weight g" by (rule weight_le_max)
        with dhb show "dh + w \<le> ?b" by simp
      qed
    qed
    with body relaxed show ?thesis by simp
  qed
qed

lemma inv_correct_loop_state:
  assumes wf: "wf_graph g" and ne: "[] \<notin> set (keys g)" and np: "proto \<notin> set (keys g)"
    and ex: "length (keys g) * max_weight g \<le> 2 ^ 53"
    and ls: "loop_state g s e n st"
  shows "inv_correct g s st \<and> inv_bound (n * max_weight g) st"
  using ls
proof (induction rule: loop_state.induct)
  case loop_state_init
  from wf np have "inv_correct g s (init g s)" by (intro inv_correct_init wf_graph_keys)
  moreover have "inv_bound (0 * max_weight g) (init g s)"
    by (auto simp: inv_bound_def distances_init enat_0_iff split: if_splits)
  ultimately show ?case by simp
next
  case (loop_state_step n st x rest st')
  from loop_state_step.IH have inv: "inv_correct g s st"
    and b: "inv_bound (n * max_weight g) st" by simp_all
  from loop_state_step.hyps(2) have pq: "pq st = x # rest" by (simp add: dequeue_Some)
  from loop_state_step.hyps(1) have "n + length (pq st) = length (keys g)"
    by (rule loop_state_length)
  with pq have "Suc n \<le> length (keys g)" by simp
  then have "Suc n * max_weight g \<le> length (keys g) * max_weight g"
    by (rule mult_le_mono1)
  with ex have le: "n * max_weight g + max_weight g \<le> 2 ^ 53" by simp
  from inv have l: "inv_loop st" by (simp add: inv_correct_def)
  from l b loop_state_step.hyps(2,3) le
  have "inv_bound (n * max_weight g + max_weight g) st'" by (rule inv_bound_step)
  then have b': "inv_bound (Suc n * max_weight g) st'" by (simp add: add.commute)
  have "dh + w \<le> 2 ^ 53"
    if "distances st (element x) = Some (enat dh)" "map_of g (element x) = Some nbrs"
      "(n', w) \<in> set nbrs" for dh nbrs n' w
  proof -
    from b that(1) have "dh \<le> n * max_weight g" by (simp add: inv_bound_def)
    moreover from that(2,3) have "w \<le> max_weight g" by (rule weight_le_max)
    ultimately show ?thesis using le by simp
  qed
  with inv wf ne loop_state_step.hyps(2,3) have "inv_correct g s st'"
    by (rule inv_correct_step)
  with b' show ?case by simp
qed

subsection \<open>No path is shorter\<close>

lemma path_weight_hd_key: "path_weight g (v # rest) \<noteq> None \<Longrightarrow> v \<in> set (keys g)"
proof (cases rest)
  case Nil
  assume "path_weight g (v # rest) \<noteq> None"
  with Nil show ?thesis by (simp split: if_splits)
next
  case (Cons v' r)
  assume "path_weight g (v # rest) \<noteq> None"
  with Cons have "edge_weight g v v' \<noteq> None" by (auto split: option.splits)
  then have "map_of g v \<noteq> None" by (auto simp: edge_weight_def split: option.splits)
  then show ?thesis by (simp add: keys_def map_of_eq_None_iff)
qed

lemma bounded_mono: "bounded st v b \<Longrightarrow> b \<le> c \<Longrightarrow> bounded st v c"
  unfolding bounded_def by (meson enat_ord_simps(1) order_trans)

lemma queue_entry:
  assumes "inv_queue st" "proto \<notin> queued st" "x \<in> set (pq st)"
  shows "distances st (element x) = Some (priority x)"
proof -
  from assms(3) have "element x \<in> queued st" by (simp add: queued_def)
  with assms(2) have "element x \<noteq> proto" by auto
  with assms(1,3) show ?thesis by (simp add: inv_queue_def)
qed

lemma bounded_start:
  assumes q: "inv_queue st" and np: "proto \<notin> queued st"
    and t: "inv_tree g s st" and s: "s \<in> set (keys g)"
  shows "bounded st s 0"
proof (cases "s \<in> queued st")
  case False
  with t s show ?thesis by (simp add: bounded_def inv_tree_def enat_0)
next
  case True
  then obtain x where x: "x \<in> set (pq st)" "element x = s" by (auto simp: queued_def)
  with q np have "distances st s = Some (priority x)" by (auto dest: queue_entry)
  with t s have "priority x = 0" by (simp add: inv_tree_def)
  then have "priority x \<le> enat 0" by (simp add: enat_0)
  with x(1) show ?thesis unfolding bounded_def by blast
qed

lemma bounded_edge:
  assumes q: "inv_queue st" and np: "proto \<notin> queued st"
    and ed: "inv_edges g st" and b: "bounded st u b"
    and e: "edge_weight g u v = Some c" "v \<in> set (keys g)"
  shows "bounded st v (b + c)"
proof -
  from b consider (settled) d where "u \<notin> queued st" "distances st u = Some d" "d \<le> enat b"
    | (frontier) x where "x \<in> set (pq st)" "priority x \<le> enat b"
    unfolding bounded_def by blast
  then show ?thesis
  proof cases
    case (settled d)
    from settled(3) obtain du where du: "d = enat du" "du \<le> b" by (cases d) auto
    with settled ed e obtain dv where dv: "distances st v = Some dv" "dv \<le> enat (du + c)"
      unfolding inv_edges_def by blast
    from dv(2) du(2) have le: "dv \<le> enat (b + c)"
      by (meson add_le_mono1 enat_ord_simps(1) order_trans)
    show ?thesis
    proof (cases "v \<in> queued st")
      case False
      with dv(1) le show ?thesis by (auto simp: bounded_def)
    next
      case True
      then obtain y where y: "y \<in> set (pq st)" "element y = v" by (auto simp: queued_def)
      with q np have "distances st v = Some (priority y)" by (auto dest: queue_entry)
      with dv(1) le have "priority y \<le> enat (b + c)" by simp
      with y(1) show ?thesis by (auto simp: bounded_def)
    qed
  next
    case (frontier x)
    from frontier(2) have "priority x \<le> enat (b + c)"
      by (meson enat_ord_simps(1) le_add1 order_trans)
    with frontier(1) show ?thesis by (auto simp: bounded_def)
  qed
qed

lemma bounded_path:
  "inv_queue st \<Longrightarrow> proto \<notin> queued st \<Longrightarrow> inv_edges g st \<Longrightarrow> path_weight g p = Some w \<Longrightarrow>
     bounded st (hd p) b \<Longrightarrow> bounded st (last p) (b + w)"
proof (induction g p arbitrary: b w rule: path_weight.induct)
  case (1 g)
  then show ?case by simp
next
  case (2 g v)
  then show ?case by (simp split: if_splits)
next
  case (3 g u v rest)
  note q = "3.prems"(1) and np = "3.prems"(2) and ed = "3.prems"(3)
  from "3.prems"(4) obtain c w' where c: "edge_weight g u v = Some c"
    and w': "path_weight g (v # rest) = Some w'" and w: "w = c + w'"
    by (auto split: option.splits)
  from w' have "v \<in> set (keys g)" using path_weight_hd_key [of g v rest] by simp
  moreover from "3.prems"(5) have "bounded st u b" by simp
  ultimately have "bounded st v (b + c)"
    using q np ed c by (intro bounded_edge [where u = u])
  then have "bounded st (hd (v # rest)) (b + c)" by simp
  with "3.IH" [OF c q np ed w'] have "bounded st (last (v # rest)) (b + c + w')" .
  with w show ?case by (simp add: add.assoc)
qed

lemma extracted_lower_bound:
  assumes inv: "inv_correct g s st" and pq: "pq st = x # rest"
    and p: "is_path g s (element x) p" "path_weight g p = Some w"
  shows "priority x \<le> enat w"
proof -
  from inv have q: "inv_queue st" and t: "inv_tree g s st" and ed: "inv_edges g st"
    and np: "proto \<notin> queued st"
    by (auto simp: inv_correct_def inv_loop_def inv_dom_def)
  from p(1) have f: "first p = Some s" "last p = element x" by (simp_all add: is_path_def)
  then have ne: "p \<noteq> []" "hd p = s" by (simp_all add: first_Some)
  with p(2) have "s \<in> set (keys g)" by (cases p) (auto intro: path_weight_hd_key)
  with q np t have "bounded st s 0" by (rule bounded_start)
  with ne have "bounded st (hd p) 0" by simp
  with q np ed p(2) have "bounded st (last p) (0 + w)" by (intro bounded_path)
  with f(2) have "bounded st (element x) w" by simp
  moreover have "element x \<in> queued st" by (simp add: queued_def pq)
  ultimately obtain y where y: "y \<in> set (pq st)" "priority y \<le> enat w"
    by (auto simp: bounded_def)
  from q pq y(1) have "priority x \<le> priority y" by (auto simp: inv_queue_def)
  then show ?thesis using y(2) by (rule order_trans)
qed

subsection \<open>The end node is extracted\<close>

lemma queued_Continue:
  assumes "loop_body g e x st = Continue st'"
  shows "queued st' = queued st"
proof -
  have "set_mset (mset (map element (pq st'))) = set_mset (mset (map element (pq st)))"
    by (simp only: loop_body_Continue_elements [OF assms])
  then show ?thesis by (simp add: queued_def)
qed

lemma end_extracted:
  assumes "loop_state g s e n st" "e \<in> queued st"
  shows "\<exists>m st1 x rest. loop_state g s e m st1 \<and> dequeue (pq st1) = Some (x, rest) \<and>
    element x = e \<and>
    dijkstra_loop g s e st =
      (case loop_body g e x (st1\<lparr>pq := rest\<rparr>) of
         Continue st' \<Rightarrow> dijkstra_loop g s e st'
       | Found st' \<Rightarrow> reconstruct s e st')"
  using assms
proof (induction g s e st arbitrary: n rule: dijkstra_loop.induct)
  case (1 g s e st)
  show ?case
  proof (cases "dequeue (pq st)")
    case None
    then have "pq st = []" by (simp add: dequeue_def split: list.splits)
    with "1.prems"(2) show ?thesis by (simp add: queued_def)
  next
    case (Some xr)
    obtain x rest where xr: "xr = (x, rest)" by (cases xr)
    from Some xr have deq: "dequeue (pq st) = Some (x, rest)" by simp
    then have pq: "pq st = x # rest" by (simp add: dequeue_Some)
    have unfold: "dijkstra_loop g s e st =
      (case loop_body g e x (st\<lparr>pq := rest\<rparr>) of
         Continue st' \<Rightarrow> dijkstra_loop g s e st'
       | Found st' \<Rightarrow> reconstruct s e st')"
      using deq by (subst dijkstra_loop.simps) simp
    show ?thesis
    proof (cases "element x = e")
      case True
      with "1.prems"(1) deq unfold show ?thesis by blast
    next
      case False
      then obtain st' where body: "loop_body g e x (st\<lparr>pq := rest\<rparr>) = Continue st'"
        by (cases "loop_body g e x (st\<lparr>pq := rest\<rparr>)") (auto dest: loop_body_Found)
      from "1.prems"(1) deq body have ls: "loop_state g s e (Suc n) st'"
        by (rule loop_state_step)
      from "1.prems"(2) pq False have "e \<in> queued (st\<lparr>pq := rest\<rparr>)"
        by (auto simp: queued_def)
      with body have "e \<in> queued st'" by (simp add: queued_Continue)
      from "1.IH" [OF Some xr [symmetric] body ls this] unfold body show ?thesis
        by simp
    qed
  qed
qed

subsection \<open>The reconstructed path\<close>

lemma tree_walk:
  assumes t: "inv_tree g s st" and d: "inv_dom g st"
  shows "walks (previousNodes st) v \<Longrightarrow> distances st v = Some (enat k) \<Longrightarrow>
    \<exists>p. walk_back (previousNodes st) s e (Some v) acc = Some (Walked (p @ acc)) \<and>
      first p = Some s \<and> last p = v \<and> path_weight g p = Some k"
proof (induction arbitrary: acc k rule: walks.induct)
  case (walks_stop v)
  from walks_stop.prems d have vk: "v \<in> set (keys g)" by (auto simp: inv_dom_def)
  from walks_stop.prems have "v \<in> dom (distances st)" by auto
  with d have "v \<in> dom (previousNodes st)" by (simp add: inv_dom_def)
  then obtain q where q: "previousNodes st v = Some q" by auto
  from t walks_stop.prems walks_stop.hyps have vs: "v = s"
    unfolding inv_tree_def by blast
  with t vk walks_stop.prems have k: "k = 0" by (simp add: inv_tree_def enat_0_iff)
  from q vs have "walk_back (previousNodes st) s e (Some v) acc = Some (Walked ([v] @ acc))"
    by (subst walk_back.simps) simp
  moreover have "first [v] = Some s" "last [v] = v" "path_weight g [v] = Some k"
    using vs vk k by (simp_all add: first_def)
  ultimately show ?case by blast
next
  case (walks_step v u)
  from walks_step.prems d have vk: "v \<in> set (keys g)" by (auto simp: inv_dom_def)
  from t walks_step.hyps(1) obtain du w where u: "v \<noteq> s" "u \<noteq> []"
    "distances st u = Some (enat du)" "edge_weight g u v = Some w"
    "distances st v = Some (enat (du + w))"
    unfolding inv_tree_def by blast
  from u(5) walks_step.prems have k: "k = du + w" by simp
  from walks_step.IH [OF u(3), of "v # acc"] obtain p where
    p: "walk_back (previousNodes st) s e (Some u) (v # acc) = Some (Walked (p @ v # acc))"
      "first p = Some s" "last p = u" "path_weight g p = Some du"
    by blast
  from p(2) have ne: "p \<noteq> []" by (simp add: first_Some)
  from walks_step.hyps(1) u(1,2) p(1)
  have "walk_back (previousNodes st) s e (Some v) acc = Some (Walked ((p @ [v]) @ acc))"
    by (subst walk_back.simps) simp
  moreover from p(2) ne have "first (p @ [v]) = Some s" by (simp add: first_append)
  moreover have "last (p @ [v]) = v" by simp
  moreover from p(3,4) u(4) vk have "path_weight g (p @ [v]) = Some k"
    unfolding k by (intro path_weight_snoc) simp_all
  ultimately show ?case by blast
qed

lemma reconstruct_tree:
  assumes t: "inv_tree g s st" and d: "inv_dom g st" and w: "walks (previousNodes st) e"
    and k: "distances st e = Some (enat k)"
  shows "\<exists>p. reconstruct s e st = Some (Some \<lparr>path = p, distance = Some (enat k)\<rparr>) \<and>
    first p = Some s \<and> last p = e \<and> path_weight g p = Some k"
proof -
  from tree_walk [OF t d w k, of e "[]"] obtain p where
    p: "walk_back (previousNodes st) s e (Some e) [] = Some (Walked p)"
      "first p = Some s" "last p = e" "path_weight g p = Some k"
    by auto
  from p(1,2) k have "reconstruct s e st = Some (Some \<lparr>path = p, distance = Some (enat k)\<rparr>)"
    by (simp add: reconstruct_def)
  with p show ?thesis by blast
qed

subsection \<open>Correctness\<close>

lemma dijkstra_correct:
  assumes wf: "wf_graph g" and ne: "[] \<notin> set (keys g)" and np: "proto \<notin> set (keys g)"
    and ex: "length (keys g) * max_weight g \<le> 2 ^ 53" and p0: "is_path g s e p0"
  shows "\<exists>p d. dijkstra g s e = Some (Some \<lparr>path = p, distance = Some (enat d)\<rparr>) \<and>
    is_path g s e p \<and> path_weight g p = Some d \<and>
    (\<forall>q w. is_path g s e q \<longrightarrow> path_weight g q = Some w \<longrightarrow> d \<le> w)"
proof -
  from p0 obtain w0 where w0: "path_weight g p0 = Some w0" "last p0 = e" "p0 \<noteq> []"
    by (auto simp: is_path_def first_Some)
  have ek: "e \<in> set (keys g)"
  proof -
    have "path_weight g q \<noteq> None \<Longrightarrow> last q \<in> set (keys g)" for q
      by (induction g q rule: path_weight.induct) (auto split: if_splits option.splits)
    with w0 show ?thesis by auto
  qed
  then have "e \<in> queued (init g s)" by (simp add: queued_init)
  with loop_state_init obtain m st x rest where
    ls: "loop_state g s e m st" and deq: "dequeue (pq st) = Some (x, rest)"
    and x: "element x = e"
    and run: "dijkstra_loop g s e (init g s) =
      (case loop_body g e x (st\<lparr>pq := rest\<rparr>) of
         Continue st' \<Rightarrow> dijkstra_loop g s e st'
       | Found st' \<Rightarrow> reconstruct s e st')"
    using end_extracted by blast
  from wf ne np ex ls have inv: "inv_correct g s st"
    by (rule inv_correct_loop_state [THEN conjunct1])
  from deq have pq: "pq st = x # rest" by (simp add: dequeue_Some)
  let ?st = "st\<lparr>pq := rest\<rparr>"
  from inv have q: "inv_queue st" and sq: "inv_settled st" and wk: "inv_walks st"
    and d: "inv_dom g st" and t: "inv_tree g s st" and npq: "proto \<notin> queued st"
    by (auto simp: inv_correct_def inv_loop_def inv_dom_def)
  have lower: "priority x \<le> enat w" if "is_path g s e q" "path_weight g q = Some w" for q w
    using inv pq that unfolding x [symmetric] by (rule extracted_lower_bound)
  from lower [OF p0 w0(1)] obtain k where k: "priority x = enat k" by (cases "priority x") auto
  from q npq have "distances st (element x) = Some (priority x)"
    by (rule queue_entry) (simp add: pq)
  then have dx: "distances st e = Some (priority x)" by (simp add: x)
  with k have dk: "distances ?st e = Some (enat k)" by simp
  from ek ne have "e \<noteq> []" by auto
  with dk x have "loop_body g e x ?st = Found ?st" by (simp add: loop_body_def)
  with run have res: "dijkstra g s e = reconstruct s e ?st" by (simp add: dijkstra_def)
  from t pq have t1: "inv_tree g s ?st" by (rule inv_tree_dequeue)
  from d pq have d1: "inv_dom g ?st" by (rule inv_dom_dequeue)
  from wk pq have w1: "inv_walks ?st" by (rule inv_walks_dequeue)
  from inv_dequeue(4) [OF q sq pq] x have "e \<notin> queued ?st" by simp
  with w1 have "walks (previousNodes ?st) e" by (simp add: inv_walks_def)
  from reconstruct_tree [OF t1 d1 this dk] obtain p where
    p: "reconstruct s e ?st = Some (Some \<lparr>path = p, distance = Some (enat k)\<rparr>)"
      "first p = Some s" "last p = e" "path_weight g p = Some k"
    by blast
  have "\<forall>q w. is_path g s e q \<longrightarrow> path_weight g q = Some w \<longrightarrow> k \<le> w"
    using lower k by auto
  with res p show ?thesis by (auto simp: is_path_def)
qed

text \<open>
  C1, as the code has it. Take a graph with non-negative integer weights, symmetric, in
  which no node is named by the empty string or \<^verbatim>\<open>__proto__\<close> and in which the number of
  nodes times the largest weight is at most \<open>2 ^ 53\<close>, so that every sum the engine
  forms is exact; and take two of its nodes such that some path leads from the start node
  to the end node. Then \<^verbatim>\<open>dijkstra\<close> returns a result; its path is a path of the graph
  from the start node to the end node; its distance is the sum of the weights of the edges
  along that path; and no path from the start node to the end node weighs less. (Symmetry
  is not used: \<open>dijkstra_correct\<close> holds of every such graph, with a path read as a
  sequence of edges from a node to one of its neighbours.)
\<close>

theorem C1_shortest_path:
  assumes "wf_graph g" and "symmetric g" and "[] \<notin> set (keys g)"
    and "''__proto__'' \<notin> set (keys g)"
    and "length (keys g) * max_weight g \<le> 2 ^ 53"
    and "startNode \<in> set (keys g)" and "endNode \<in> set (keys g)"
    and "is_path g startNode endNode p0"
  shows "\<exists>r d. dijkstra g startNode endNode = Some (Some r) \<and>
    is_path g startNode endNode (path r) \<and> path_weight g (path r) = Some d \<and>
    distance r = Some (enat d) \<and>
    (\<forall>q w. is_path g startNode endNode q \<longrightarrow> path_weight g q = Some w \<longrightarrow> d \<le> w)"
proof -
  from assms(4) have "proto \<notin> set (keys g)" by (simp add: proto_def)
  from dijkstra_correct [OF assms(1,3) this assms(5,8)] obtain p d where
    "dijkstra g startNode endNode = Some (Some \<lparr>path = p, distance = Some (enat d)\<rparr>)"
    "is_path g startNode endNode p" "path_weight g p = Some d"
    "\<forall>q w. is_path g startNode endNode q \<longrightarrow> path_weight g q = Some w \<longrightarrow> d \<le> w"
    by blast
  then have "dijkstra g startNode endNode = Some (Some \<lparr>path = p, distance = Some (enat d)\<rparr>) \<and>
    is_path g startNode endNode (path \<lparr>path = p, distance = Some (enat d)\<rparr>) \<and>
    path_weight g (path \<lparr>path = p, distance = Some (enat d)\<rparr>) = Some d \<and>
    distance \<lparr>path = p, distance = Some (enat d)\<rparr> = Some (enat d) \<and>
    (\<forall>q w. is_path g startNode endNode q \<longrightarrow> path_weight g q = Some w \<longrightarrow> d \<le> w)"
    by simp
  then show ?thesis by blast
qed

subsection \<open>A sum that is not exact\<close>

lemma floorlog_above_2_53:
  "floorlog 2 9007199254740994 = 54" "floorlog 2 9007199254740995 = 54"
  "floorlog 2 9007199254740996 = 54"
  by (rule floorlog_eq [of 53, simplified]; simp)+

lemma js_add_above_2_53:
  "js_add 0 (enat 9007199254740994) = enat 9007199254740994"
  "js_add 0 (enat 9007199254740996) = enat 9007199254740996"
  "js_add (enat 9007199254740994) (enat (Suc 0)) = enat 9007199254740996"
  by (simp_all add: js_add_def zero_enat_def js_round_def nearest_def ulp_def Let_def
      floorlog_above_2_53)

lemma init_rounding_graph:
  "init rounding_graph ''A'' =
     \<lparr>distances = [''A'' \<mapsto> 0, ''B'' \<mapsto> \<infinity>, ''C'' \<mapsto> \<infinity>],
      previousNodes = [''A'' \<mapsto> None, ''B'' \<mapsto> None, ''C'' \<mapsto> None],
      pq = [\<lparr>element = ''A'', priority = 0\<rparr>, \<lparr>element = ''B'', priority = \<infinity>\<rparr>,
            \<lparr>element = ''C'', priority = \<infinity>\<rparr>]\<rparr>"
  by (simp add: init_def init_node_def rounding_graph_def enqueue_def proto_def Let_def)

lemma dijkstra_rounding_graph:
  "dijkstra rounding_graph ''A'' ''C''
     = Some (Some \<lparr>path = [''A'', ''C''], distance = Some (enat 9007199254740996)\<rparr>)"
  unfolding dijkstra_def init_rounding_graph
  by (simp add: dijkstra_loop.simps dequeue_def loop_body_def relax_def updatePriority_def
      Let_def reconstruct_def walk_back.simps first_def js_add_above_2_53 rounding_graph_def)

text \<open>
  C1 as stated fails when a node is named by the empty string: the guard
  \<^verbatim>\<open>!currentNode\<close> of line 32 skips it when it is extracted, so what lies behind it is
  never reached. Here A and B are connected through it by a path of weight 2, and
  \<^verbatim>\<open>dijkstra\<close> returns \<^verbatim>\<open>null\<close>. The same happens when the node between A and B is
  named \<^verbatim>\<open>__proto__\<close>: the distance table never holds a number for it, so nothing is
  relaxed from it. And it fails when a sum is not exact: in the triangle the engine adds
  \<open>2 ^ 53 + 2\<close> and 1 to \<open>2 ^ 53 + 4\<close>, which is not less than the weight of the edge
  from A to C, and returns that edge, although the way over B weighs \<open>2 ^ 53 + 3\<close>.
\<close>

theorem C1_not_the_shortest_path:
  "wf_graph empty_name_between \<and> symmetric empty_name_between \<and>
   ''A'' \<in> set (keys empty_name_between) \<and> ''B'' \<in> set (keys empty_name_between) \<and>
   is_path empty_name_between ''A'' ''B'' [''A'', [], ''B''] \<and>
   path_weight empty_name_between [''A'', [], ''B''] = Some 2 \<and>
   dijkstra empty_name_between ''A'' ''B'' = Some None \<and>
   wf_graph proto_between \<and> symmetric proto_between \<and>
   ''A'' \<in> set (keys proto_between) \<and> ''B'' \<in> set (keys proto_between) \<and>
   is_path proto_between ''A'' ''B'' [''A'', ''__proto__'', ''B''] \<and>
   path_weight proto_between [''A'', ''__proto__'', ''B''] = Some 2 \<and>
   dijkstra proto_between ''A'' ''B'' = Some None \<and>
   wf_graph rounding_graph \<and> symmetric rounding_graph \<and>
   ''A'' \<in> set (keys rounding_graph) \<and> ''C'' \<in> set (keys rounding_graph) \<and>
   is_path rounding_graph ''A'' ''C'' [''A'', ''B'', ''C''] \<and>
   path_weight rounding_graph [''A'', ''B'', ''C''] = Some 9007199254740995 \<and>
   dijkstra rounding_graph ''A'' ''C''
     = Some (Some \<lparr>path = [''A'', ''C''], distance = Some 9007199254740996\<rparr>) \<and>
   path_weight rounding_graph [''A'', ''C''] = Some 9007199254740996"
proof -
  have "dijkstra empty_name_between ''A'' ''B'' = Some None" by code_simp
  moreover have "path_weight empty_name_between [''A'', [], ''B''] = Some 2"
    by code_simp
  moreover have "is_path empty_name_between ''A'' ''B'' [''A'', [], ''B'']"
    by code_simp
  moreover have "wf_graph empty_name_between" "symmetric empty_name_between"
    by code_simp+
  moreover have "''A'' \<in> set (keys empty_name_between)" "''B'' \<in> set (keys empty_name_between)"
    by (simp_all add: keys_def empty_name_between_def)
  moreover have "dijkstra proto_between ''A'' ''B'' = Some None" by code_simp
  moreover have "path_weight proto_between [''A'', ''__proto__'', ''B''] = Some 2"
    by code_simp
  moreover have "is_path proto_between ''A'' ''B'' [''A'', ''__proto__'', ''B'']"
    by code_simp
  moreover have "wf_graph proto_between" "symmetric proto_between"
    by code_simp+
  moreover have "''A'' \<in> set (keys proto_between)" "''B'' \<in> set (keys proto_between)"
    by (simp_all add: keys_def proto_between_def)
  moreover have "wf_graph rounding_graph" "symmetric rounding_graph"
    by (simp_all add: wf_graph_def symmetric_def edge_weight_def rounding_graph_def)
  moreover have "''A'' \<in> set (keys rounding_graph)" "''C'' \<in> set (keys rounding_graph)"
    by (simp_all add: keys_def rounding_graph_def)
  moreover have "path_weight rounding_graph [''A'', ''B'', ''C''] = Some 9007199254740995"
    "path_weight rounding_graph [''A'', ''C''] = Some 9007199254740996"
    by (simp_all add: edge_weight_def keys_def rounding_graph_def)
  moreover from this have "is_path rounding_graph ''A'' ''C'' [''A'', ''B'', ''C'']"
    by (simp add: is_path_def first_def)
  moreover have "dijkstra rounding_graph ''A'' ''C''
     = Some (Some \<lparr>path = [''A'', ''C''], distance = Some 9007199254740996\<rparr>)"
    by (simp add: dijkstra_rounding_graph numeral_eq_enat)
  ultimately show ?thesis by simp
qed

text \<open>
  The theorem on scenario 1: the result is the path [A, B, C, D, F] of weight 7, and the
  path [A, C, D, F], of weight 8, is not shorter.
\<close>

lemma wf_scenario1: "wf_graph scenario1"
  by code_simp

lemma symmetric_scenario1: "symmetric scenario1"
  by code_simp

lemma keys_scenario1: "keys scenario1 = [''A'', ''B'', ''C'', ''D'', ''E'', ''F'']"
  by (simp add: keys_def scenario1_def)

lemma max_weight_scenario1: "max_weight scenario1 = 7"
  by code_simp

lemma scenario1_other_path:
  "is_path scenario1 ''A'' ''F'' [''A'', ''C'', ''D'', ''F'']"
  "path_weight scenario1 [''A'', ''C'', ''D'', ''F''] = Some 8"
  by code_simp+

theorem C1_shortest_path_witness:
  "wf_graph scenario1 \<and> symmetric scenario1 \<and> [] \<notin> set (keys scenario1) \<and>
   ''__proto__'' \<notin> set (keys scenario1) \<and>
   length (keys scenario1) * max_weight scenario1 \<le> 2 ^ 53 \<and>
   ''A'' \<in> set (keys scenario1) \<and> ''F'' \<in> set (keys scenario1) \<and>
   is_path scenario1 ''A'' ''F'' [''A'', ''C'', ''D'', ''F''] \<and>
   path_weight scenario1 [''A'', ''C'', ''D'', ''F''] = Some 8 \<and>
   dijkstra scenario1 ''A'' ''F''
     = Some (Some \<lparr>path = [''A'', ''B'', ''C'', ''D'', ''F''], distance = Some 7\<rparr>) \<and>
   is_path scenario1 ''A'' ''F'' [''A'', ''B'', ''C'', ''D'', ''F''] \<and>
   path_weight scenario1 [''A'', ''B'', ''C'', ''D'', ''F''] = Some 7 \<and>
   (7 :: nat) \<le> 8"
proof -
  have k: "[] \<notin> set (keys scenario1)" "''__proto__'' \<notin> set (keys scenario1)"
    by (simp_all add: keys_scenario1)
  have m: "length (keys scenario1) * max_weight scenario1 \<le> 2 ^ 53"
    by (simp add: keys_scenario1 max_weight_scenario1)
  have k': "''A'' \<in> set (keys scenario1)" "''F'' \<in> set (keys scenario1)"
    by (simp_all add: keys_scenario1)
  have run: "dijkstra scenario1 ''A'' ''F''
     = Some (Some \<lparr>path = [''A'', ''B'', ''C'', ''D'', ''F''], distance = Some 7\<rparr>)"
    by code_simp
  from C1_shortest_path [OF wf_scenario1 symmetric_scenario1 k m k' scenario1_other_path(1)]
  obtain r d where r: "dijkstra scenario1 ''A'' ''F'' = Some (Some r)"
    "is_path scenario1 ''A'' ''F'' (path r)" "path_weight scenario1 (path r) = Some d"
    "distance r = Some (enat d)"
    "\<forall>q w. is_path scenario1 ''A'' ''F'' q \<longrightarrow> path_weight scenario1 q = Some w \<longrightarrow> d \<le> w"
    by blast
  from r(1) run have r': "r = \<lparr>path = [''A'', ''B'', ''C'', ''D'', ''F''], distance = Some 7\<rparr>"
    by simp
  with r(4) have d: "d = 7" by (simp add: numeral_eq_enat)
  from r(5) scenario1_other_path have "d \<le> 8" by blast
  with r(2,3) r' d wf_scenario1 symmetric_scenario1 k m k' scenario1_other_path run
  show ?thesis by simp
qed

section \<open>The concrete scenarios\<close>

text \<open>
  C2. On the graph with the edges A-B(1), A-C(4), B-C(2), B-D(7), C-D(1), C-E(5), D-E(2),
  D-F(3), E-F(6), \<^verbatim>\<open>dijkstra(graph, "A", "F")\<close> returns the path [A, B, C, D, F] with
  distance 7.
\<close>

theorem C2_scenario1:
  "dijkstra scenario1 ''A'' ''F''
     = Some (Some \<lparr>path = [''A'', ''B'', ''C'', ''D'', ''F''], distance = Some 7\<rparr>)"
  by code_simp

text \<open>
  C5. On the graph \<^verbatim>\<open>{A: {B: 0}, B: {A: 0}}\<close>, with the single edge A-B of weight 0,
  \<^verbatim>\<open>dijkstra(graph, "A", "B")\<close> returns the path [A, B] with distance 0.
\<close>

theorem C5_zero_weight_edge:
  "dijkstra scenario4 ''A'' ''B''
     = Some (Some \<lparr>path = [''A'', ''B''], distance = Some 0\<rparr>)"
  by code_simp

end
